theory Spec2Isabelle
  imports Main "HOL-Library.Word"
begin

section \<open>The buddy page allocator of \<^verbatim>\<open>buddy.cpp\<close>\<close>

text \<open>
  The allocator keeps one free list per order in the array
  \<^verbatim>\<open>_free_areas[MAX_ORDER+1]\<close>. A list is threaded through the
  \<^verbatim>\<open>next_free\<close> field of the page descriptors it holds.

  Page descriptors live in one array indexed by page frame number, and
  \<^verbatim>\<open>pgd_to_pfn\<close> / \<^verbatim>\<open>pfn_to_pgd\<close> are the order-preserving bijection
  between a descriptor and its frame number. A non-null descriptor pointer is therefore
  modelled by its frame number: pointer comparison is comparison of frame numbers and
  pointer arithmetic is arithmetic on frame numbers. Frame numbers are natural numbers;
  every subtraction the code performs on them is guarded by a test that keeps it from
  going below zero, which is noted where it occurs.

  A free list is modelled by the list of frame numbers it links, head first, and the
  table \<^verbatim>\<open>_free_areas\<close> by the list of these lists, indexed by order. A pointer that
  walks a free list is the suffix of the list that is still ahead of it. This reading of
  the intrusive lists is exact as long as no descriptor is linked at two places at once.

  An order is an \<^verbatim>\<open>int\<close> in the code. The model has the orders from 0 on, as
  natural numbers: a negative order makes the shift in \<^verbatim>\<open>pages_per_block\<close>
  undefined. The one counter that does go below zero, the \<^verbatim>\<open>uint32_t order\<close> of
  \<^verbatim>\<open>remove_page_range\<close>, is a 32-bit word.

  An \<^verbatim>\<open>assert\<close> that fails, and an access outside \<^verbatim>\<open>_free_areas\<close>, end the
  run; both are results of the model (\<open>Inl\<close>), and a normal return is \<open>Inr\<close>.
\<close>

type_synonym pfn = nat
type_synonym free_areas = "pfn list list"

datatype fault = AssertionFailure | OutOfBounds

definition MAX_ORDER :: nat where
  "MAX_ORDER = 18"

definition pages_per_block :: "nat \<Rightarrow> nat" where
  "pages_per_block order = 2 ^ order"

definition is_correct_alignment_for_order :: "pfn \<Rightarrow> nat \<Rightarrow> bool" where
  "is_correct_alignment_for_order pgd order \<longleftrightarrow> pgd mod pages_per_block order = 0"

text \<open>
  \<^verbatim>\<open>buddy_of\<close>: \<open>None\<close> is the null pointer. The subtraction is taken only when
  \<open>pgd\<close> is a multiple of \<open>2 ^ order\<close> but not of \<open>2 ^ (order + 1)\<close>, so that
  \<open>pgd \<ge> 2 ^ order\<close>.
\<close>

definition buddy_of :: "pfn \<Rightarrow> nat \<Rightarrow> pfn option" where
  "buddy_of pgd order =
     (if order \<ge> MAX_ORDER then None
      else if \<not> is_correct_alignment_for_order pgd order then None
      else Some (if is_correct_alignment_for_order pgd (order + 1)
                 then pgd + pages_per_block order
                 else pgd - pages_per_block order))"

text \<open>
  \<^verbatim>\<open>insert_block\<close>: the walk \<^verbatim>\<open>while (*slot && pgd > *slot)\<close> and the link
  step. The slot the code returns points at the inserted descriptor, so the callers'
  \<^verbatim>\<open>*slot\<close> is \<open>pgd\<close> itself.
\<close>

fun insert_slot :: "pfn \<Rightarrow> pfn list \<Rightarrow> pfn list" where
  "insert_slot pgd [] = [pgd]"
| "insert_slot pgd (x # xs) = (if pgd > x then x # insert_slot pgd xs else pgd # x # xs)"

definition insert_block :: "free_areas \<Rightarrow> pfn \<Rightarrow> nat \<Rightarrow> fault + free_areas" where
  "insert_block fa pgd order =
     (if order > MAX_ORDER then Inl OutOfBounds
      else Inr (fa[order := insert_slot pgd (fa ! order)]))"

text \<open>
  \<^verbatim>\<open>remove_block\<close>: the walk \<^verbatim>\<open>while (*slot && pgd != *slot)\<close>; \<open>None\<close> when
  it reaches the end of the list, where \<^verbatim>\<open>assert(*slot == pgd)\<close> fails.
\<close>

fun unlink_slot :: "pfn \<Rightarrow> pfn list \<Rightarrow> pfn list option" where
  "unlink_slot pgd [] = None"
| "unlink_slot pgd (x # xs) =
     (if pgd \<noteq> x then (case unlink_slot pgd xs of None \<Rightarrow> None | Some ys \<Rightarrow> Some (x # ys))
      else Some xs)"

definition remove_block :: "free_areas \<Rightarrow> pfn \<Rightarrow> nat \<Rightarrow> fault + free_areas" where
  "remove_block fa pgd order =
     (if order > MAX_ORDER then Inl OutOfBounds
      else (case unlink_slot pgd (fa ! order) of
              None \<Rightarrow> Inl AssertionFailure
            | Some xs \<Rightarrow> Inr (fa[order := xs])))"

text \<open>
  \<^verbatim>\<open>split_block\<close>, called with \<^verbatim>\<open>*block_pointer\<close> = \<open>block\<close>. The result
  carries the returned descriptor, which is \<open>block\<close> again.
\<close>

definition split_block :: "free_areas \<Rightarrow> pfn \<Rightarrow> nat \<Rightarrow> fault + (free_areas \<times> pfn)" where
  "split_block fa block source_order =
     (if \<not> is_correct_alignment_for_order block source_order then Inl AssertionFailure
      else if source_order = 0 then Inr (fa, block)
      else
        let left = block;
            right = left + pages_per_block (source_order - 1)
        in (case remove_block fa left source_order of
              Inl e \<Rightarrow> Inl e
            | Inr fa1 \<Rightarrow>
               (case insert_block fa1 left (source_order - 1) of
                  Inl e \<Rightarrow> Inl e
                | Inr fa2 \<Rightarrow>
                   (case insert_block fa2 right (source_order - 1) of
                      Inl e \<Rightarrow> Inl e
                    | Inr fa3 \<Rightarrow> Inr (fa3, block)))))"

text \<open>
  \<^verbatim>\<open>merge_block\<close>, called with \<^verbatim>\<open>*block_pointer\<close> = \<open>block\<close>. A null buddy
  makes \<^verbatim>\<open>remove_block(right, ...)\<close> dereference null; the model reports it as an
  access out of bounds. The result carries the descriptor the returned slot points at.
\<close>

definition merge_block :: "free_areas \<Rightarrow> pfn \<Rightarrow> nat \<Rightarrow> fault + (free_areas \<times> pfn)" where
  "merge_block fa block source_order =
     (if \<not> is_correct_alignment_for_order block source_order then Inl AssertionFailure
      else
        let left = block in
        (case buddy_of left source_order of
           None \<Rightarrow>
             (case remove_block fa left source_order of
                Inl e \<Rightarrow> Inl e
              | Inr fa1 \<Rightarrow> Inl OutOfBounds)
         | Some right \<Rightarrow>
             (case remove_block fa left source_order of
                Inl e \<Rightarrow> Inl e
              | Inr fa1 \<Rightarrow>
                 (case remove_block fa1 right source_order of
                    Inl e \<Rightarrow> Inl e
                  | Inr fa2 \<Rightarrow>
                     if is_correct_alignment_for_order left (source_order + 1)
                     then (case insert_block fa2 left (source_order + 1) of
                             Inl e \<Rightarrow> Inl e
                           | Inr fa3 \<Rightarrow> Inr (fa3, left))
                     else (case insert_block fa2 right (source_order + 1) of
                             Inl e \<Rightarrow> Inl e
                           | Inr fa3 \<Rightarrow> Inr (fa3, right))))))"

subsection \<open>Allocation\<close>

text \<open>
  The first loop of \<^verbatim>\<open>allocate_pages\<close>. \<open>None\<close> is the \<^verbatim>\<open>return NULL\<close>
  inside the loop; \<open>Some free\<close> is the value of \<^verbatim>\<open>free\<close> when the loop is left
  by \<^verbatim>\<open>break\<close> or by its condition.
\<close>

function find_free :: "free_areas \<Rightarrow> nat \<Rightarrow> nat option" where
  "find_free fa free =
     (if free \<le> MAX_ORDER then
        (if free = MAX_ORDER \<and> fa ! free = [] then None
         else if fa ! free = [] then find_free fa (free + 1)
         else Some free)
      else Some free)"
  by pat_completeness auto
termination
  by (relation "measure (\<lambda>(fa, free). Suc MAX_ORDER - free)") auto

text \<open>The second loop: \<^verbatim>\<open>for (int i = free; i > order; i--)\<close>.\<close>

function split_down :: "free_areas \<Rightarrow> pfn \<Rightarrow> nat \<Rightarrow> nat \<Rightarrow> fault + (free_areas \<times> pfn)" where
  "split_down fa block i order =
     (if i > order then
        (case split_block fa block i of
           Inl e \<Rightarrow> Inl e
         | Inr (fa', block') \<Rightarrow> split_down fa' block' (i - 1) order)
      else Inr (fa, block))"
  by pat_completeness auto
termination
  by (relation "measure (\<lambda>(fa, block, i, order). i)") auto

text \<open>
  \<^verbatim>\<open>allocate_pages\<close>. The result is the returned pointer (\<open>None\<close> for null)
  and the table. An order above \<open>MAX_ORDER\<close> skips the first loop and reads
  \<^verbatim>\<open>_free_areas[order]\<close> outside the array.
\<close>

definition allocate_pages :: "free_areas \<Rightarrow> nat \<Rightarrow> fault + (pfn option \<times> free_areas)" where
  "allocate_pages fa order =
     (case find_free fa order of
        None \<Rightarrow> Inr (None, fa)
      | Some free \<Rightarrow>
          if free > MAX_ORDER then Inl OutOfBounds
          else
            (case split_down fa (hd (fa ! free)) free order of
               Inl e \<Rightarrow> Inl e
             | Inr (fa1, block) \<Rightarrow>
                (case remove_block fa1 block order of
                   Inl e \<Rightarrow> Inl e
                 | Inr fa2 \<Rightarrow> Inr (Some block, fa2))))"

subsection \<open>Freeing\<close>

text \<open>
  The loop of \<^verbatim>\<open>repeated_merge\<close>. \<open>curr_block\<close> is the descriptor the slot
  \<^verbatim>\<open>curr_block\<close> points at, \<open>scan\<close> is what the pointer \<^verbatim>\<open>block\<close> still has
  ahead of it (empty for null), \<open>buddy\<close> is \<^verbatim>\<open>buddy\<close>. In the merging branch
  \<open>curr_order < MAX_ORDER\<close>, so the read of \<^verbatim>\<open>_free_areas[curr_order + 1]\<close> is
  inside the array.
\<close>

function merge_loop ::
  "free_areas \<Rightarrow> pfn \<Rightarrow> nat \<Rightarrow> pfn list \<Rightarrow> pfn option \<Rightarrow> fault + free_areas" where
  "merge_loop fa curr_block curr_order scan buddy =
     (if curr_order < MAX_ORDER \<and> scan \<noteq> [] then
        (if Some (hd scan) \<noteq> buddy then merge_loop fa curr_block curr_order (tl scan) buddy
         else
           (case merge_block fa curr_block curr_order of
              Inl e \<Rightarrow> Inl e
            | Inr (fa', curr_block') \<Rightarrow>
                merge_loop fa' curr_block' (curr_order + 1) (fa' ! (curr_order + 1))
                  (buddy_of curr_block' (curr_order + 1))))
      else Inr fa)"
  by pat_completeness auto
termination
  by (relation "measures [\<lambda>(fa, cb, co, scan, buddy). MAX_ORDER - co,
                          \<lambda>(fa, cb, co, scan, buddy). length scan]") auto

definition repeated_merge :: "free_areas \<Rightarrow> pfn \<Rightarrow> nat \<Rightarrow> fault + free_areas" where
  "repeated_merge fa block order =
     (if order > MAX_ORDER then Inl OutOfBounds
      else merge_loop fa block order (fa ! order) (buddy_of block order))"

definition free_pages :: "free_areas \<Rightarrow> pfn \<Rightarrow> nat \<Rightarrow> fault + free_areas" where
  "free_pages fa pgd order =
     (if \<not> is_correct_alignment_for_order pgd order then Inl AssertionFailure
      else (case insert_block fa pgd order of
              Inl e \<Rightarrow> Inl e
            | Inr fa1 \<Rightarrow> repeated_merge fa1 pgd order))"

subsection \<open>Ranges\<close>

text \<open>
  The inner loop of \<^verbatim>\<open>insert_page_range\<close>,
  \<^verbatim>\<open>for (size = MAX_ORDER; size >= 0; size--)\<close> over a signed \<^verbatim>\<open>int\<close>:
  \<open>Some sz\<close> (the value of \<^verbatim>\<open>size\<close>) when it is left by \<^verbatim>\<open>break\<close>, \<open>None\<close> when it runs out with
  \<^verbatim>\<open>size == -1\<close>.
\<close>

fun pick_size :: "pfn \<Rightarrow> nat \<Rightarrow> nat \<Rightarrow> nat option" where
  "pick_size start count sz =
     (if pages_per_block sz > count \<or> \<not> is_correct_alignment_for_order start sz
      then (case sz of 0 \<Rightarrow> None | Suc sz' \<Rightarrow> pick_size start count sz')
      else Some sz)"

function insert_page_range :: "free_areas \<Rightarrow> pfn \<Rightarrow> nat \<Rightarrow> fault + free_areas" where
  "insert_page_range fa start count =
     (if count > 0 then
        (case pick_size start count MAX_ORDER of
           None \<Rightarrow> Inl OutOfBounds
         | Some sz \<Rightarrow>
            (case free_pages fa start sz of
               Inl e \<Rightarrow> Inl e
             | Inr fa' \<Rightarrow>
                insert_page_range fa' (start + pages_per_block sz)
                  (count - pages_per_block sz)))
      else Inr fa)"
  by pat_completeness auto
termination
  by (relation "measure (\<lambda>(fa, start, count). count)") (auto simp: pages_per_block_def)

text \<open>
  The inner loop of \<^verbatim>\<open>remove_page_range\<close> over one free list: \<open>Some b\<close> is the
  block at which the body takes the branch that removes it, \<open>None\<close> is the end of the
  list or the \<^verbatim>\<open>break\<close>.
\<close>

fun scan_area :: "pfn list \<Rightarrow> nat \<Rightarrow> pfn \<Rightarrow> pfn option" where
  "scan_area [] curr_block_size start_as_pfn = None"
| "scan_area (block_start # rest) curr_block_size start_as_pfn =
     (let block_end = block_start + curr_block_size - 1 in
      if block_start > start_as_pfn then None
      else if block_start \<le> start_as_pfn \<and> start_as_pfn \<le> block_end then Some block_start
      else scan_area rest curr_block_size start_as_pfn)"

text \<open>
  The outer loop, \<^verbatim>\<open>for (uint32_t order = MAX_ORDER; order >= 0; order--)\<close>. The
  counter is a 32-bit word, so the condition \<open>order \<ge> 0\<close> is as the code has it and
  \<open>order - 1\<close> wraps at zero. The body indexes \<^verbatim>\<open>_free_areas[order]\<close>, which is
  outside the array for an order above \<open>MAX_ORDER\<close>. The result is \<open>Inr (Some (order,
  block))\<close> for the block the body removes, and \<open>Inr None\<close> when the loop is left by
  its condition.
\<close>

function find_block :: "free_areas \<Rightarrow> pfn \<Rightarrow> 32 word \<Rightarrow> fault + (nat \<times> pfn) option" where
  "find_block fa start_as_pfn order =
     (if order \<ge> 0 then
        (if unat order > MAX_ORDER then Inl OutOfBounds
         else
           (case scan_area (fa ! unat order) (pages_per_block (unat order)) start_as_pfn of
              Some block_start \<Rightarrow> Inr (Some (unat order, block_start))
            | None \<Rightarrow> find_block fa start_as_pfn (order - 1)))
      else Inr None)"
  by pat_completeness auto
termination
proof (relation "measure (\<lambda>(fa, start, order). if unat order \<le> MAX_ORDER then Suc (unat order) else 0)")
  show "wf (measure (\<lambda>(fa, start, order). if unat order \<le> MAX_ORDER then Suc (unat order) else 0))"
    by simp
next
  fix fa :: free_areas and start_as_pfn :: pfn and order :: "32 word"
  assume le: "\<not> MAX_ORDER < unat order"
  show "((fa, start_as_pfn, order - 1), (fa, start_as_pfn, order))
        \<in> measure (\<lambda>(fa, start, order). if unat order \<le> MAX_ORDER then Suc (unat order) else 0)"
  proof (cases "order = 0")
    case True
    then show ?thesis
      by (simp add: MAX_ORDER_def unsigned_minus_1_eq_mask mask_eq_exp_minus_1)
  next
    case False
    then have "unat (order - 1) = unat order - 1"
      by (rule unat_minus_one)
    with le False show ?thesis
      by (auto simp: unat_gt_0)
  qed
qed

text \<open>
  \<^verbatim>\<open>remove_page_range\<close>. In the branch that recurses \<open>end_as_pfn > block_end\<close>,
  so the new count \<open>count - (block_end - start_as_pfn + 1)\<close> is positive in the code
  as well; \<open>start_as_pfn - block_start\<close> and
  \<open>block_start + curr_block_size - end_as_pfn - 1\<close> are taken where
  \<open>block_start \<le> start_as_pfn\<close> and \<open>end_as_pfn \<le> block_end\<close>.
\<close>

function remove_page_range :: "free_areas \<Rightarrow> pfn \<Rightarrow> nat \<Rightarrow> fault + free_areas" where
  "remove_page_range fa start count =
     (if count = 0 then Inr fa
      else
        let start_as_pfn = start;
            end_as_pfn = start_as_pfn + count - 1
        in (case find_block fa start_as_pfn (word_of_nat MAX_ORDER) of
              Inl e \<Rightarrow> Inl e
            | Inr None \<Rightarrow> Inr fa
            | Inr (Some (order, block_start)) \<Rightarrow>
               (let curr_block_size = pages_per_block order;
                    block_end = block_start + curr_block_size - 1
                in (case remove_block fa block_start order of
                      Inl e \<Rightarrow> Inl e
                    | Inr fa1 \<Rightarrow>
                       (case insert_page_range fa1 block_start (start_as_pfn - block_start) of
                          Inl e \<Rightarrow> Inl e
                        | Inr fa2 \<Rightarrow>
                           if end_as_pfn \<le> block_end
                           then insert_page_range fa2 (end_as_pfn + 1)
                                  (block_start + curr_block_size - end_as_pfn - 1)
                           else remove_page_range fa2 (block_end + 1)
                                  (count - (block_end - start_as_pfn + 1)))))))"
  by pat_completeness auto
termination
  by (relation "measure (\<lambda>(fa, start, count). count)") auto

subsection \<open>Initialisation\<close>

text \<open>
  \<^verbatim>\<open>init\<close>: the loop \<^verbatim>\<open>for (i = 0; i <= MAX_ORDER; i++) _free_areas[i] = NULL\<close>
  and the returned flag. \<open>page_descriptors\<close> is whether the pointer is non-null.
\<close>

function init_loop :: "free_areas \<Rightarrow> nat \<Rightarrow> free_areas" where
  "init_loop fa i = (if i \<le> MAX_ORDER then init_loop (fa[i := []]) (i + 1) else fa)"
  by pat_completeness auto
termination
  by (relation "measure (\<lambda>(fa, i). Suc MAX_ORDER - i)") auto

definition init :: "free_areas \<Rightarrow> bool \<Rightarrow> nat \<Rightarrow> free_areas \<times> bool" where
  "init fa page_descriptors nr_page_descriptors =
     (init_loop fa 0, page_descriptors \<and> nr_page_descriptors > 0)"

declare find_free.simps [simp del] split_down.simps [simp del] merge_loop.simps [simp del]
  pick_size.simps [simp del] insert_page_range.simps [simp del] find_block.simps [simp del]
  remove_page_range.simps [simp del] init_loop.simps [simp del]

subsection \<open>The tables of the scenarios\<close>

text \<open>
  The empty table, and the tables with the free blocks named in the scenarios: a block of
  order 3 at frame 0; blocks of order 1 at frame 2 and of order 2 at frame 4; blocks of
  order 0 at frames 2 and 5 and of order 1 at frames 0 and 6.
\<close>

definition empty_areas :: free_areas where
  "empty_areas = replicate (Suc MAX_ORDER) []"

definition scenario_A :: free_areas where
  "scenario_A = empty_areas[3 := [0]]"

definition scenario_B :: free_areas where
  "scenario_B = empty_areas[1 := [2], 2 := [4]]"

definition scenario_D :: free_areas where
  "scenario_D = empty_areas[0 := [2, 5], 1 := [0, 6]]"

section \<open>Free blocks and the invariants of the table\<close>

text \<open>
  The frames a block of order \<open>k\<close> at frame \<open>b\<close> covers; the free blocks of a table,
  as pairs of a first frame and an order; the frames that are free.
\<close>

definition block_pages :: "pfn \<Rightarrow> nat \<Rightarrow> pfn set" where
  "block_pages b k = {b ..< b + pages_per_block k}"

definition free_blocks :: "free_areas \<Rightarrow> (pfn \<times> nat) set" where
  "free_blocks fa = {(b, k). k \<le> MAX_ORDER \<and> b \<in> set (fa ! k)}"

definition free_pfns :: "free_areas \<Rightarrow> pfn set" where
  "free_pfns fa = (\<Union>(b, k) \<in> free_blocks fa. block_pages b k)"

text \<open>
  The structural invariant: the table has its \<open>MAX_ORDER + 1\<close> lists, every free block
  is aligned to its order, two different free blocks (of one order or of two) share no
  frame, and every list is strictly ascending. A table with this invariant links no
  descriptor at two places, which is the condition under which the lists of the model
  are the lists of the code.
\<close>

definition structural_inv :: "free_areas \<Rightarrow> bool" where
  "structural_inv fa \<longleftrightarrow>
     length fa = Suc MAX_ORDER
     \<and> (\<forall>(b, k) \<in> free_blocks fa. is_correct_alignment_for_order b k)
     \<and> (\<forall>(b, k) \<in> free_blocks fa. \<forall>(b', k') \<in> free_blocks fa.
           (b, k) \<noteq> (b', k') \<longrightarrow> block_pages b k \<inter> block_pages b' k' = {})
     \<and> (\<forall>k \<le> MAX_ORDER. sorted_wrt (<) (fa ! k))"

text \<open>
  The eager-merge invariant: no free block has its buddy free in the same order.
  \<open>buddy_of\<close> is null from \<open>MAX_ORDER\<close> on, so this speaks of the orders below it.
\<close>

definition eager_merged :: "free_areas \<Rightarrow> bool" where
  "eager_merged fa \<longleftrightarrow>
     (\<forall>(b, k) \<in> free_blocks fa. \<forall>b'. buddy_of b k = Some b' \<longrightarrow> (b', k) \<notin> free_blocks fa)"

text \<open>The number of free frames, counted block by block.\<close>

definition total_free_pages :: "free_areas \<Rightarrow> nat" where
  "total_free_pages fa = (\<Sum>k \<leftarrow> [0..<length fa]. length (fa ! k) * pages_per_block k)"

text \<open>
  Notions used in the proofs: the buddy and the parent of an aligned block as numbers,
  a table whose lists are strictly ascending, and the invariants read on the set of free
  blocks.
\<close>

definition buddy_pfn :: "pfn \<Rightarrow> nat \<Rightarrow> pfn" where
  "buddy_pfn b k = (if 2 ^ Suc k dvd b then b + 2 ^ k else b - 2 ^ k)"

definition parent_pfn :: "pfn \<Rightarrow> nat \<Rightarrow> pfn" where
  "parent_pfn b k = (if 2 ^ Suc k dvd b then b else b - 2 ^ k)"

definition table_ok :: "free_areas \<Rightarrow> bool" where
  "table_ok fa \<longleftrightarrow> length fa = Suc MAX_ORDER \<and> (\<forall>k \<le> MAX_ORDER. sorted_wrt (<) (fa ! k))"

definition aligned_set :: "(pfn \<times> nat) set \<Rightarrow> bool" where
  "aligned_set B \<longleftrightarrow> (\<forall>(b, k) \<in> B. k \<le> MAX_ORDER \<and> 2 ^ k dvd b)"

definition disjoint_set :: "(pfn \<times> nat) set \<Rightarrow> bool" where
  "disjoint_set B \<longleftrightarrow>
     (\<forall>(b, k) \<in> B. \<forall>(b', k') \<in> B. (b, k) \<noteq> (b', k') \<longrightarrow> block_pages b k \<inter> block_pages b' k' = {})"

definition merged_set :: "(pfn \<times> nat) set \<Rightarrow> bool" where
  "merged_set B \<longleftrightarrow> (\<forall>(b, k) \<in> B. k < MAX_ORDER \<and> 2 ^ k dvd b \<longrightarrow> (buddy_pfn b k, k) \<notin> B)"

definition pfns :: "(pfn \<times> nat) set \<Rightarrow> pfn set" where
  "pfns B = (\<Union>(b, k) \<in> B. block_pages b k)"

text \<open>
  The tables that can arise: the table \<^verbatim>\<open>init\<close> leaves, and the table any of the four
  public operations returns with when it is called on such a table with its precondition
  met. The preconditions: an order within \<open>0..MAX_ORDER\<close>; for \<open>free_pages\<close> a block
  that is aligned to its order and none of whose frames is free; for
  \<open>insert_page_range\<close> a range none of whose frames is free; for
  \<open>remove_page_range\<close> a range all of whose frames are free.
\<close>

inductive reachable :: "free_areas \<Rightarrow> bool" where
  init: "length fa0 = Suc MAX_ORDER \<Longrightarrow>
         reachable (fst (init fa0 page_descriptors nr_page_descriptors))"
| allocate: "reachable fa \<Longrightarrow> order \<le> MAX_ORDER \<Longrightarrow>
         allocate_pages fa order = Inr (r, fa') \<Longrightarrow> reachable fa'"
| free: "reachable fa \<Longrightarrow> order \<le> MAX_ORDER \<Longrightarrow>
         is_correct_alignment_for_order pgd order \<Longrightarrow>
         block_pages pgd order \<inter> free_pfns fa = {} \<Longrightarrow>
         free_pages fa pgd order = Inr fa' \<Longrightarrow> reachable fa'"
| insert_range: "reachable fa \<Longrightarrow> {start ..< start + count} \<inter> free_pfns fa = {} \<Longrightarrow>
         insert_page_range fa start count = Inr fa' \<Longrightarrow> reachable fa'"
| remove_range: "reachable fa \<Longrightarrow> {start ..< start + count} \<subseteq> free_pfns fa \<Longrightarrow>
         remove_page_range fa start count = Inr fa' \<Longrightarrow> reachable fa'"

section \<open>Evaluating the scenarios\<close>

lemma length_empty_areas [simp]: "length empty_areas = Suc MAX_ORDER"
  by (simp add: empty_areas_def)

lemma nth_empty_areas [simp]: "j \<le> MAX_ORDER \<Longrightarrow> empty_areas ! j = []"
  using nth_replicate [of j "Suc MAX_ORDER" "[]"] by (simp add: empty_areas_def)

lemma list_update_Cons_numeral:
  "(x # xs)[numeral k := v] = x # xs[pred_numeral k := v]"
  by (simp add: numeral_eq_Suc)

lemma empty_areas_eq:
  "empty_areas = [[], [], [], [], [], [], [], [], [], [], [], [], [], [], [], [], [], [], []]"
  by (simp add: empty_areas_def MAX_ORDER_def numeral_eq_Suc)

lemma scenario_A_eq:
  "scenario_A = [[], [], [], [0], [], [], [], [], [], [], [], [], [], [], [], [], [], [], []]"
  by (simp add: scenario_A_def empty_areas_eq list_update_Cons_numeral)

lemma scenario_B_eq:
  "scenario_B = [[], [2], [4], [], [], [], [], [], [], [], [], [], [], [], [], [], [], [], []]"
  by (simp add: scenario_B_def empty_areas_eq list_update_Cons_numeral)

lemma scenario_D_eq:
  "scenario_D = [[2, 5], [0, 6], [], [], [], [], [], [], [], [], [], [], [], [], [], [], [], [], []]"
  by (simp add: scenario_D_def empty_areas_eq list_update_Cons_numeral)

lemmas eval_defs = MAX_ORDER_def list_update_Cons_numeral pages_per_block_def
  is_correct_alignment_for_order_def buddy_of_def insert_block_def remove_block_def
  split_block_def merge_block_def allocate_pages_def repeated_merge_def free_pages_def
  init_def Let_def
  find_free.simps split_down.simps merge_loop.simps pick_size.simps insert_page_range.simps
  find_block.simps remove_page_range.simps init_loop.simps

lemmas scenario_eqs = empty_areas_eq scenario_A_eq scenario_B_eq scenario_D_eq

lemma eval_insert_range_A: "insert_page_range empty_areas 0 8 = Inr scenario_A"
  by (simp add: eval_defs scenario_eqs)

lemma eval_allocate_B: "allocate_pages scenario_A 1 = Inr (Some 0, scenario_B)"
  by (simp add: eval_defs scenario_eqs)

lemma eval_free_A: "free_pages scenario_B 0 1 = Inr scenario_A"
  by (simp add: eval_defs scenario_eqs)

lemma eval_insert_range_B: "insert_page_range scenario_B 0 2 = Inr scenario_A"
  by (simp add: eval_defs scenario_eqs)

lemma eval_remove_range_A: "remove_page_range scenario_A 0 2 = Inr scenario_B"
  by (simp add: eval_defs scenario_eqs)

lemma eval_remove_range_D: "remove_page_range scenario_A 3 2 = Inr scenario_D"
  by (simp add: eval_defs scenario_eqs)

lemma eval_remove_range_empty: "remove_page_range empty_areas 0 1 = Inl OutOfBounds"
  by (simp add: eval_defs scenario_eqs unsigned_minus_1_eq_mask mask_eq_exp_minus_1)

lemma eval_remove_range_partial: "remove_page_range scenario_A 6 4 = Inl OutOfBounds"
  by (simp add: eval_defs scenario_eqs unsigned_minus_1_eq_mask mask_eq_exp_minus_1)

text \<open>
  C6 (Scenario B). From the table whose only free block is the order-3 block at frames
  [0,7], \<open>allocate_pages 1\<close> returns the block at frame 0 and leaves exactly an order-1
  block at frames [2,3] and an order-2 block at frames [4,7].
\<close>

theorem scenario_B_allocate:
  "allocate_pages scenario_A 1 = Inr (Some 0, scenario_B)"
  by (simp add: eval_defs scenario_eqs)

text \<open>
  C2 (Scenario C). From the table with an order-1 block at [2,3] and an order-2 block at
  [4,7], freeing the order-1 block at frame 0 gives the table whose only free block is
  the order-3 block at [0,7]. The steps of the code: the block is linked into order 1; it
  is merged with its buddy at frame 2 into the order-2 block at frame 0; that block is
  merged with its buddy at frame 4 into the order-3 block at frame 0.
\<close>

theorem scenario_C_free:
  "free_pages scenario_B 0 1 = Inr scenario_A
   \<and> insert_block scenario_B 0 1 = Inr (empty_areas[1 := [0, 2], 2 := [4]])
   \<and> buddy_of 0 1 = Some 2
   \<and> merge_block (empty_areas[1 := [0, 2], 2 := [4]]) 0 1 = Inr (empty_areas[2 := [0, 4]], 0)
   \<and> buddy_of 0 2 = Some 4
   \<and> merge_block (empty_areas[2 := [0, 4]]) 0 2 = Inr (scenario_A, 0)"
  by (simp add: eval_defs scenario_eqs)

text \<open>
  C7 (Scenario D). From the table whose only free block is the order-3 block at [0,7],
  \<open>remove_page_range 3 2\<close> leaves exactly four free blocks: order 1 at [0,1], order 0
  at [2], order 0 at [5] and order 1 at [6,7].
\<close>

theorem scenario_D_remove_range:
  "remove_page_range scenario_A 3 2 = Inr scenario_D"
  by (simp add: eval_defs scenario_eqs)

section \<open>Allocation\<close>

lemma find_free_None_iff:
  "order \<le> MAX_ORDER \<Longrightarrow>
   find_free fa order = None \<longleftrightarrow> (\<forall>j. order \<le> j \<and> j \<le> MAX_ORDER \<longrightarrow> fa ! j = [])"
proof (induction fa order rule: find_free.induct)
  case (1 fa free)
  show ?case
  proof (cases "fa ! free = []")
    case False
    with "1.prems" show ?thesis
      by (subst find_free.simps) auto
  next
    case True
    show ?thesis
    proof (cases "free = MAX_ORDER")
      case True
      with \<open>fa ! free = []\<close> show ?thesis
        by (subst find_free.simps) auto
    next
      case False
      with "1.prems" have lt: "free + 1 \<le> MAX_ORDER" by simp
      have "find_free fa free = find_free fa (free + 1)"
        using True False "1.prems" by (subst find_free.simps) simp
      also have "\<dots> = None \<longleftrightarrow> (\<forall>j. free + 1 \<le> j \<and> j \<le> MAX_ORDER \<longrightarrow> fa ! j = [])"
        using "1.IH" [OF "1.prems" _ True lt] False True by simp
      also have "\<dots> \<longleftrightarrow> (\<forall>j. free \<le> j \<and> j \<le> MAX_ORDER \<longrightarrow> fa ! j = [])"
        (is "?L \<longleftrightarrow> ?R")
      proof
        assume l: ?L
        show ?R
        proof (intro allI impI)
          fix j
          assume "free \<le> j \<and> j \<le> MAX_ORDER"
          then consider "j = free" | "free + 1 \<le> j \<and> j \<le> MAX_ORDER"
            by linarith
          then show "fa ! j = []"
            using True l by cases auto
        qed
      next
        assume ?R
        then show ?L by auto
      qed
      finally show ?thesis .
    qed
  qed
qed

lemma find_free_lowest:
  "order \<le> free \<Longrightarrow> free \<le> MAX_ORDER \<Longrightarrow> fa ! free \<noteq> [] \<Longrightarrow>
   (\<forall>j. order \<le> j \<and> j < free \<longrightarrow> fa ! j = []) \<Longrightarrow> find_free fa order = Some free"
proof (induction fa order rule: find_free.induct)
  case (1 fa ord)
  show ?case
  proof (cases "ord = free")
    case True
    with "1.prems" show ?thesis
      by (subst find_free.simps) simp
  next
    case False
    with "1.prems" have lt: "ord < free" and e: "fa ! ord = []" by auto
    then have "find_free fa ord = find_free fa (ord + 1)"
      using "1.prems" by (subst find_free.simps) simp
    also have "\<dots> = Some free"
      using "1.IH" [of ] "1.prems" lt e by auto
    finally show ?thesis .
  qed
qed

lemma unlink_slot_head [simp]: "unlink_slot b (b # xs) = Some xs"
  by simp

lemma split_block_head:
  assumes len: "length T = Suc MAX_ORDER" and i: "i \<le> MAX_ORDER" "0 < i"
    and al: "is_correct_alignment_for_order b i"
    and hd: "T ! i = b # rest" and emp: "T ! (i - 1) = []"
  shows "split_block T b i = Inr (T[i := rest, i - 1 := [b, b + pages_per_block (i - 1)]], b)"
proof -
  have r: "remove_block T b i = Inr (T[i := rest])"
    using i hd by (simp add: remove_block_def)
  have n: "T[i := rest] ! (i - 1) = []"
    using i emp len by (simp add: nth_list_update)
  have i1: "insert_block (T[i := rest]) b (i - 1) = Inr (T[i := rest, i - 1 := [b]])"
    using i n by (simp add: insert_block_def)
  have i2: "insert_block (T[i := rest, i - 1 := [b]]) (b + pages_per_block (i - 1)) (i - 1)
            = Inr (T[i := rest, i - 1 := [b, b + pages_per_block (i - 1)]])"
    using i len by (simp add: insert_block_def pages_per_block_def)
  show ?thesis
    using al i r i1 i2 by (simp add: split_block_def Let_def)
qed

lemma split_down_effect:
  assumes "length T = Suc MAX_ORDER" "i \<le> MAX_ORDER" "order \<le> i"
    and "is_correct_alignment_for_order b i"
    and "T ! i = b # rest" and "\<forall>j. order \<le> j \<and> j < i \<longrightarrow> T ! j = []"
  shows "\<exists>T'. split_down T b i order = Inr (T', b) \<and> length T' = length T
           \<and> (\<forall>j \<le> MAX_ORDER. T' ! j =
                 (if j = order then (if order = i then b # rest else [b, b + pages_per_block order])
                  else if j = i then rest
                  else if order < j \<and> j < i then [b + pages_per_block j]
                  else T ! j))"
  using assms
proof (induction i arbitrary: T rest)
  case 0
  then show ?case
    by (subst split_down.simps) auto
next
  case (Suc i)
  show ?case
  proof (cases "order = Suc i")
    case True
    then show ?thesis
      using Suc.prems by (subst split_down.simps) auto
  next
    case False
    with Suc.prems have oi: "order \<le> i" by simp
    let ?T1 = "T[Suc i := rest, i := [b, b + pages_per_block i]]"
    have emp: "T ! i = []" using Suc.prems oi by simp
    have sb: "split_block T b (Suc i) = Inr (?T1, b)"
      using split_block_head [of T "Suc i" b rest] Suc.prems emp by simp
    have al: "is_correct_alignment_for_order b i"
      using Suc.prems(4)
      by (simp add: is_correct_alignment_for_order_def pages_per_block_def mod_eq_0_iff_dvd)
         (metis dvd_mult_right mult.commute)
    have len1: "length ?T1 = Suc MAX_ORDER" using Suc.prems by simp
    have hd1: "?T1 ! i = b # [b + pages_per_block i]"
      using Suc.prems by simp
    have emp1: "\<forall>j. order \<le> j \<and> j < i \<longrightarrow> ?T1 ! j = []"
      using Suc.prems by (auto simp: nth_list_update)
    from Suc.IH [OF len1 _ oi al hd1 emp1] Suc.prems(2)
    obtain T' where T': "split_down ?T1 b i order = Inr (T', b)" "length T' = length ?T1"
      "\<forall>j \<le> MAX_ORDER. T' ! j =
                 (if j = order then (if order = i then b # [b + pages_per_block i] else [b, b + pages_per_block order])
                  else if j = i then [b + pages_per_block i]
                  else if order < j \<and> j < i then [b + pages_per_block j]
                  else ?T1 ! j)"
      by auto
    have "split_down T b (Suc i) order = split_down ?T1 b i order"
      using oi sb by (subst split_down.simps) simp
    then have 1: "split_down T b (Suc i) order = Inr (T', b)" using T'(1) by simp
    have 2: "length T' = length T" using T'(2) by simp
    have 3: "\<forall>j \<le> MAX_ORDER. T' ! j =
                 (if j = order then (if order = Suc i then b # rest else [b, b + pages_per_block order])
                  else if j = Suc i then rest
                  else if order < j \<and> j < Suc i then [b + pages_per_block j]
                  else T ! j)"
    proof (intro allI impI)
      fix j assume j: "j \<le> MAX_ORDER"
      show "T' ! j =
                 (if j = order then (if order = Suc i then b # rest else [b, b + pages_per_block order])
                  else if j = Suc i then rest
                  else if order < j \<and> j < Suc i then [b + pages_per_block j]
                  else T ! j)"
        using T'(3) [rule_format, OF j] j oi False Suc.prems(1,2)
        by (auto simp: nth_list_update)
    qed
    from 1 2 3 show ?thesis by blast
  qed
qed

lemma allocate_pages_found:
  assumes len: "length fa = Suc MAX_ORDER"
    and ord: "order \<le> free" "free \<le> MAX_ORDER"
    and ne: "fa ! free \<noteq> []"
    and emp: "\<forall>j. order \<le> j \<and> j < free \<longrightarrow> fa ! j = []"
    and al: "is_correct_alignment_for_order (hd (fa ! free)) free"
  shows "\<exists>fa'. allocate_pages fa order = Inr (Some (hd (fa ! free)), fa')
           \<and> length fa' = length fa
           \<and> (\<forall>j \<le> MAX_ORDER. fa' ! j =
                 (if j = free then tl (fa ! free)
                  else if order \<le> j \<and> j < free then [hd (fa ! free) + pages_per_block j]
                  else fa ! j))"
proof -
  let ?b = "hd (fa ! free)"
  have ff: "find_free fa order = Some free"
    using find_free_lowest [OF ord ne emp] .
  have hd: "fa ! free = ?b # tl (fa ! free)"
    using ne by simp
  from split_down_effect [OF len ord(2) ord(1) al hd emp]
  obtain T' where T': "split_down fa ?b free order = Inr (T', ?b)" "length T' = length fa"
    "\<forall>j \<le> MAX_ORDER. T' ! j =
        (if j = order then (if order = free then ?b # tl (fa ! free) else [?b, ?b + pages_per_block order])
         else if j = free then tl (fa ! free)
         else if order < j \<and> j < free then [?b + pages_per_block j]
         else fa ! j)"
    by blast
  have ok: "order \<le> MAX_ORDER" using ord by simp
  let ?xs = "if order = free then tl (fa ! free) else [?b + pages_per_block order]"
  have Tk: "T' ! order = ?b # ?xs"
    using T'(3) [rule_format, OF ok] by simp
  have rb: "remove_block T' ?b order = Inr (T'[order := ?xs])"
    using ok Tk by (simp add: remove_block_def)
  have res: "allocate_pages fa order = Inr (Some ?b, T'[order := ?xs])"
    using ff ord T'(1) rb by (simp add: allocate_pages_def)
  have "\<forall>j \<le> MAX_ORDER. T'[order := ?xs] ! j =
                 (if j = free then tl (fa ! free)
                  else if order \<le> j \<and> j < free then [?b + pages_per_block j]
                  else fa ! j)"
  proof (intro allI impI)
    fix j assume j: "j \<le> MAX_ORDER"
    show "T'[order := ?xs] ! j =
                 (if j = free then tl (fa ! free)
                  else if order \<le> j \<and> j < free then [?b + pages_per_block j]
                  else fa ! j)"
      using T'(3) [rule_format, OF j] j ok T'(2) len ord
      by (auto simp: nth_list_update)
  qed
  with res T'(2) show ?thesis by simp
qed

lemma allocate_pages_null_iff:
  assumes "order \<le> MAX_ORDER"
  shows "(\<exists>fa'. allocate_pages fa order = Inr (None, fa'))
         \<longleftrightarrow> (\<forall>j. order \<le> j \<and> j \<le> MAX_ORDER \<longrightarrow> fa ! j = [])"
proof -
  have "(\<exists>fa'. allocate_pages fa order = Inr (None, fa')) \<longleftrightarrow> find_free fa order = None"
    by (auto simp: allocate_pages_def split: option.splits sum.splits if_splits prod.splits)
  then show ?thesis
    using find_free_None_iff [OF assms] by simp
qed

text \<open>
  C1. For an order within \<open>0..MAX_ORDER\<close>, \<open>allocate_pages\<close> returns null exactly
  when every free list from that order up to \<open>MAX_ORDER\<close> is empty. Otherwise, with
  \<open>free\<close> the lowest non-empty order at or above the request and its head block aligned
  to \<open>free\<close>, the call returns that head block: the block is unlinked from order
  \<open>free\<close>, every order from the request up to \<open>free - 1\<close> is left with the upper
  half produced by the split at that level, and the lowest-address piece, of the
  requested order, is the one returned. In particular, with a single free block of order
  \<open>MAX_ORDER\<close> a first \<open>allocate_pages MAX_ORDER\<close> returns it and leaves the pool
  empty, and a second one returns null.
\<close>

theorem allocate_pages_policy:
  assumes "order \<le> MAX_ORDER" and "length fa = Suc MAX_ORDER"
  shows "((\<exists>fa'. allocate_pages fa order = Inr (None, fa'))
            \<longleftrightarrow> (\<forall>j. order \<le> j \<and> j \<le> MAX_ORDER \<longrightarrow> fa ! j = []))
       \<and> (\<forall>free. order \<le> free \<and> free \<le> MAX_ORDER \<and> fa ! free \<noteq> []
                  \<and> (\<forall>j. order \<le> j \<and> j < free \<longrightarrow> fa ! j = [])
                  \<and> is_correct_alignment_for_order (hd (fa ! free)) free
            \<longrightarrow> (\<exists>fa'. allocate_pages fa order = Inr (Some (hd (fa ! free)), fa')
                   \<and> length fa' = length fa
                   \<and> (\<forall>j \<le> MAX_ORDER. fa' ! j =
                         (if j = free then tl (fa ! free)
                          else if order \<le> j \<and> j < free
                               then [hd (fa ! free) + pages_per_block j]
                          else fa ! j))))
       \<and> (\<forall>b. allocate_pages (empty_areas[MAX_ORDER := [b]]) MAX_ORDER = Inr (Some b, empty_areas)
              \<and> allocate_pages empty_areas MAX_ORDER = Inr (None, empty_areas))"
proof (intro conjI allI impI)
  show "(\<exists>fa'. allocate_pages fa order = Inr (None, fa'))
            \<longleftrightarrow> (\<forall>j. order \<le> j \<and> j \<le> MAX_ORDER \<longrightarrow> fa ! j = [])"
    using allocate_pages_null_iff [OF assms(1)] .
next
  fix free
  assume "order \<le> free \<and> free \<le> MAX_ORDER \<and> fa ! free \<noteq> []
                  \<and> (\<forall>j. order \<le> j \<and> j < free \<longrightarrow> fa ! j = [])
                  \<and> is_correct_alignment_for_order (hd (fa ! free)) free"
  then show "\<exists>fa'. allocate_pages fa order = Inr (Some (hd (fa ! free)), fa')
                   \<and> length fa' = length fa
                   \<and> (\<forall>j \<le> MAX_ORDER. fa' ! j =
                         (if j = free then tl (fa ! free)
                          else if order \<le> j \<and> j < free
                               then [hd (fa ! free) + pages_per_block j]
                          else fa ! j))"
    using allocate_pages_found [OF assms(2), of order free] by blast
next
  fix b
  have e: "find_free (empty_areas[MAX_ORDER := [b]]) MAX_ORDER = Some MAX_ORDER"
    by (subst find_free.simps) simp
  have s: "split_down (empty_areas[MAX_ORDER := [b]]) b MAX_ORDER MAX_ORDER
           = Inr (empty_areas[MAX_ORDER := [b]], b)"
    by (subst split_down.simps) simp
  have u: "empty_areas[MAX_ORDER := []] = empty_areas"
    using list_update_id [of empty_areas MAX_ORDER] by simp
  show "allocate_pages (empty_areas[MAX_ORDER := [b]]) MAX_ORDER = Inr (Some b, empty_areas)"
    using e s u by (simp add: allocate_pages_def remove_block_def)
next
  fix b :: pfn
  have "find_free empty_areas MAX_ORDER = None"
    by (subst find_free.simps) simp
  then show "allocate_pages empty_areas MAX_ORDER = Inr (None, empty_areas)"
    by (simp add: allocate_pages_def)
qed

theorem allocate_pages_policy_witness:
  "(1::nat) \<le> MAX_ORDER \<and> length scenario_A = Suc MAX_ORDER
   \<and> scenario_A ! 3 \<noteq> [] \<and> scenario_A ! 1 = [] \<and> scenario_A ! 2 = []
   \<and> is_correct_alignment_for_order (hd (scenario_A ! 3)) 3
   \<and> (\<exists>fa'. allocate_pages scenario_A 1 = Inr (Some 0, fa')
          \<and> fa' ! 1 = [2] \<and> fa' ! 2 = [4] \<and> fa' ! 3 = [])
   \<and> \<not> (\<exists>fa'. allocate_pages scenario_A 1 = Inr (None, fa'))"
proof -
  have h1: "(1::nat) \<le> MAX_ORDER" by (simp add: MAX_ORDER_def)
  have h2: "length scenario_A = Suc MAX_ORDER" by (simp add: scenario_A_def)
  have h3: "scenario_A ! 3 = [0]" "scenario_A ! 1 = []" "scenario_A ! 2 = []"
    by (simp_all add: scenario_A_eq)
  have h4: "is_correct_alignment_for_order (hd (scenario_A ! 3)) 3"
    by (simp add: h3 is_correct_alignment_for_order_def)
  have h5: "\<forall>j. 1 \<le> j \<and> j < 3 \<longrightarrow> scenario_A ! j = []"
  proof (intro allI impI)
    fix j :: nat assume "1 \<le> j \<and> j < 3"
    then have "j = 1 \<or> j = 2" by auto
    then show "scenario_A ! j = []" using h3 by auto
  qed
  note t = allocate_pages_policy [OF h1 h2]
  from t have a: "(\<exists>fa'. allocate_pages scenario_A 1 = Inr (None, fa'))
            \<longleftrightarrow> (\<forall>j. 1 \<le> j \<and> j \<le> MAX_ORDER \<longrightarrow> scenario_A ! j = [])"
    by blast
  have "\<not> (\<forall>j. 1 \<le> j \<and> j \<le> MAX_ORDER \<longrightarrow> scenario_A ! j = [])"
    using h3(1) by (auto simp: MAX_ORDER_def intro!: exI [of _ 3])
  with a have n: "\<not> (\<exists>fa'. allocate_pages scenario_A 1 = Inr (None, fa'))" by simp
  from t have "1 \<le> (3::nat) \<and> 3 \<le> MAX_ORDER \<and> scenario_A ! 3 \<noteq> []
                  \<and> (\<forall>j. 1 \<le> j \<and> j < 3 \<longrightarrow> scenario_A ! j = [])
                  \<and> is_correct_alignment_for_order (hd (scenario_A ! 3)) 3
            \<longrightarrow> (\<exists>fa'. allocate_pages scenario_A 1 = Inr (Some (hd (scenario_A ! 3)), fa')
                   \<and> length fa' = length scenario_A
                   \<and> (\<forall>j \<le> MAX_ORDER. fa' ! j =
                         (if j = 3 then tl (scenario_A ! 3)
                          else if 1 \<le> j \<and> j < 3
                               then [hd (scenario_A ! 3) + pages_per_block j]
                          else scenario_A ! j)))"
    by blast
  with h3 h4 h5 obtain fa' where fa': "allocate_pages scenario_A 1 = Inr (Some 0, fa')"
    "\<forall>j \<le> MAX_ORDER. fa' ! j =
                         (if j = 3 then []
                          else if 1 \<le> j \<and> j < 3
                               then [pages_per_block j]
                          else scenario_A ! j)"
    by (auto simp: MAX_ORDER_def)
  have "fa' ! 1 = [2]" "fa' ! 2 = [4]" "fa' ! 3 = []"
    using fa'(2) [rule_format, of 1] fa'(2) [rule_format, of 2] fa'(2) [rule_format, of 3]
    by (simp_all add: MAX_ORDER_def pages_per_block_def)
  with fa'(1) n h1 h2 h3 h4 show ?thesis by auto
qed

text \<open>
  C10. When \<open>allocate_pages\<close> returns null, the free-area table is unchanged.
\<close>

theorem allocate_pages_failure_atomic:
  "allocate_pages fa order = Inr (None, fa') \<Longrightarrow> fa' = fa"
  by (auto simp: allocate_pages_def split: option.splits sum.splits if_splits prod.splits)

theorem allocate_pages_failure_atomic_witness:
  "allocate_pages empty_areas 3 = Inr (None, empty_areas) \<and> empty_areas = empty_areas"
proof -
  have "find_free empty_areas 3 = None"
    by (simp add: eval_defs scenario_eqs)
  then have r: "allocate_pages empty_areas 3 = Inr (None, empty_areas)"
    by (simp add: allocate_pages_def)
  from allocate_pages_failure_atomic [OF r] r show ?thesis by simp
qed
section \<open>Arithmetic of blocks and buddies\<close>

lemma aligned_dvd: "is_correct_alignment_for_order b k \<longleftrightarrow> 2 ^ k dvd b"
  by (simp add: is_correct_alignment_for_order_def pages_per_block_def mod_eq_0_iff_dvd)

lemma aligned_mono: "is_correct_alignment_for_order b j \<Longrightarrow> k \<le> j \<Longrightarrow> is_correct_alignment_for_order b k"
  unfolding aligned_dvd by (rule power_le_dvd)

lemma in_block_iff:
  assumes "2 ^ k dvd b"
  shows "x \<in> block_pages b k \<longleftrightarrow> x div 2 ^ k = b div 2 ^ k"
proof -
  from assms obtain m where b: "b = 2 ^ k * m" by (auto elim: dvdE)
  have bm: "b div 2 ^ k = m" by (simp add: b)
  show ?thesis
  proof
    assume "x \<in> block_pages b k"
    then have "2 ^ k * m \<le> x" "x < 2 ^ k * Suc m"
      by (simp_all add: block_pages_def pages_per_block_def b)
    then have "x div 2 ^ k = m" by (rule div_nat_eqI)
    with bm show "x div 2 ^ k = b div 2 ^ k" by simp
  next
    assume "x div 2 ^ k = b div 2 ^ k"
    then have xm: "x div 2 ^ k = m" using bm by simp
    have "x = 2 ^ k * (x div 2 ^ k) + x mod 2 ^ k" by simp
    moreover have "x mod 2 ^ k < (2::nat) ^ k" by simp
    ultimately have "2 ^ k * m \<le> x \<and> x < 2 ^ k * m + 2 ^ k"
      using xm by (metis le_add1 nat_add_left_cancel_less)
    then show "x \<in> block_pages b k"
      by (simp add: block_pages_def pages_per_block_def b)
  qed
qed

lemma block_pages_self: "b \<in> block_pages b k"
  by (simp add: block_pages_def pages_per_block_def)

lemma block_nest:
  assumes "2 ^ k dvd b" "2 ^ j dvd c" "k \<le> j" "x \<in> block_pages b k" "x \<in> block_pages c j"
  shows "block_pages b k \<subseteq> block_pages c j"
proof
  fix y assume "y \<in> block_pages b k"
  then have "y div 2 ^ k = x div 2 ^ k"
    using assms(1,4) by (simp add: in_block_iff)
  moreover have "\<And>z::nat. z div 2 ^ j = z div 2 ^ k div 2 ^ (j - k)"
    using assms(3) by (simp add: div_mult2_eq [symmetric] power_add [symmetric])
  ultimately have "y div 2 ^ j = x div 2 ^ j" by simp
  then show "y \<in> block_pages c j"
    using assms(2,5) by (simp add: in_block_iff)
qed

lemma block_same_order:
  assumes "2 ^ k dvd b" "2 ^ k dvd c" "x \<in> block_pages b k" "x \<in> block_pages c k"
  shows "b = c"
proof -
  have "b div 2 ^ k = c div 2 ^ k"
    using assms by (simp add: in_block_iff)
  then show ?thesis
    using assms(1,2) by (metis dvd_div_mult_self)
qed

lemma buddy_of_eq:
  "buddy_of b k = (if k < MAX_ORDER \<and> 2 ^ k dvd b then Some (buddy_pfn b k) else None)"
  by (auto simp: buddy_of_def buddy_pfn_def aligned_dvd pages_per_block_def)

lemma aligned_cases:
  assumes "2 ^ k dvd (b::nat)"
  obtains m where "b = 2 ^ Suc k * m" "2 ^ Suc k dvd b"
      | m where "b = 2 ^ Suc k * m + 2 ^ k" "\<not> 2 ^ Suc k dvd b"
proof -
  from assms obtain q where b: "b = 2 ^ k * q" by (auto elim: dvdE)
  show thesis
  proof (cases "even q")
    case True
    then obtain m where "q = 2 * m" by (auto elim: evenE)
    with b have "b = 2 ^ Suc k * m" by simp
    then show thesis using that(1) by simp
  next
    case False
    then obtain m where q: "q = 2 * m + 1" by (auto elim: oddE)
    with b have e: "b = 2 ^ Suc k * m + 2 ^ k" by (simp add: algebra_simps)
    have "\<not> 2 ^ Suc k dvd b"
    proof
      assume "2 ^ Suc k dvd b"
      then have "2 ^ k * 2 dvd 2 ^ k * q" using b by (simp add: mult.commute)
      then have "2 dvd q" by simp
      with False show False by simp
    qed
    with e show thesis using that(2) by simp
  qed
qed

lemma buddy_aligned: "2 ^ k dvd b \<Longrightarrow> 2 ^ k dvd buddy_pfn b k"
  by (erule aligned_cases) (auto simp: buddy_pfn_def)

lemma buddy_involution: "2 ^ k dvd b \<Longrightarrow> buddy_pfn (buddy_pfn b k) k = b"
proof (erule aligned_cases)
  fix m assume b: "b = 2 ^ Suc k * m" "2 ^ Suc k dvd b"
  then have 1: "buddy_pfn b k = 2 ^ Suc k * m + 2 ^ k" by (simp add: buddy_pfn_def)
  have "\<not> 2 ^ Suc k dvd (2 ^ Suc k * m + 2 ^ k :: nat)"
    by (metis dvd_add_right_iff dvd_triv_left dvd_imp_le lessI not_less power_strict_increasing_iff
        one_less_numeral_iff semiring_norm(76) zero_less_numeral zero_less_power)
  then show ?thesis using 1 b by (simp add: buddy_pfn_def)
next
  fix m assume b: "b = 2 ^ Suc k * m + 2 ^ k" "\<not> 2 ^ Suc k dvd b"
  then have 1: "buddy_pfn b k = 2 ^ Suc k * m" by (simp add: buddy_pfn_def)
  then show ?thesis using b by (simp add: buddy_pfn_def)
qed

lemma parent_aligned: "2 ^ k dvd b \<Longrightarrow> 2 ^ Suc k dvd parent_pfn b k"
  by (erule aligned_cases) (auto simp: parent_pfn_def)

lemma parent_buddy: "2 ^ k dvd b \<Longrightarrow> parent_pfn (buddy_pfn b k) k = parent_pfn b k"
proof (erule aligned_cases)
  fix m assume b: "b = 2 ^ Suc k * m" "2 ^ Suc k dvd b"
  have "\<not> 2 ^ Suc k dvd (2 ^ Suc k * m + 2 ^ k :: nat)"
    by (metis dvd_add_right_iff dvd_triv_left dvd_imp_le lessI not_less power_strict_increasing_iff
        one_less_numeral_iff semiring_norm(76) zero_less_numeral zero_less_power)
  then show ?thesis using b by (simp add: buddy_pfn_def parent_pfn_def)
next
  fix m assume b: "b = 2 ^ Suc k * m + 2 ^ k" "\<not> 2 ^ Suc k dvd b"
  then show ?thesis by (simp add: buddy_pfn_def parent_pfn_def)
qed

lemma parent_pages:
  "2 ^ k dvd b \<Longrightarrow>
   block_pages (parent_pfn b k) (Suc k) = block_pages b k \<union> block_pages (buddy_pfn b k) k"
  by (erule aligned_cases)
     (auto simp: buddy_pfn_def parent_pfn_def block_pages_def pages_per_block_def)

lemma buddy_disjoint:
  "2 ^ k dvd b \<Longrightarrow> block_pages b k \<inter> block_pages (buddy_pfn b k) k = {}"
  by (erule aligned_cases)
     (auto simp: buddy_pfn_def parent_pfn_def block_pages_def pages_per_block_def)

lemma split_pages:
  "block_pages b (Suc k) = block_pages b k \<union> block_pages (b + 2 ^ k) k"
  by (auto simp: block_pages_def pages_per_block_def)

section \<open>The table as a set of blocks\<close>

subsection \<open>The list operations\<close>

lemma set_insert_slot [simp]: "set (insert_slot p xs) = insert p (set xs)"
  by (induction xs) auto

lemma sorted_insert_slot:
  "sorted_wrt (<) xs \<Longrightarrow> p \<notin> set xs \<Longrightarrow> sorted_wrt (<) (insert_slot p xs)"
  by (induction xs) auto

lemma unlink_slot_eq:
  "unlink_slot p xs = (if p \<in> set xs then Some (remove1 p xs) else None)"
  by (induction xs) auto

lemma sorted_remove1_strict:
  fixes xs :: "pfn list"
  shows "sorted_wrt (<) xs \<Longrightarrow> sorted_wrt (<) (remove1 p xs)"
  by (induction xs) (auto simp: notin_set_remove1)

lemma set_remove1_strict:
  fixes xs :: "pfn list"
  shows "sorted_wrt (<) xs \<Longrightarrow> set (remove1 p xs) = set xs - {p}"
proof -
  assume "sorted_wrt (<) xs"
  then have "distinct xs" by (simp add: strict_sorted_iff)
  then show ?thesis by (rule set_remove1_eq)
qed

lemma strict_sorted_unique:
  "sorted_wrt (<) xs \<Longrightarrow> sorted_wrt (<) ys \<Longrightarrow> set xs = set ys \<Longrightarrow> xs = (ys :: nat list)"
  by (simp add: strict_sorted_equal)

subsection \<open>Tables\<close>

lemma free_blocks_iff [simp]: "(b, k) \<in> free_blocks fa \<longleftrightarrow> k \<le> MAX_ORDER \<and> b \<in> set (fa ! k)"
  by (simp add: free_blocks_def)

lemma insert_block_ok:
  assumes "table_ok fa" "k \<le> MAX_ORDER" "(p, k) \<notin> free_blocks fa"
  shows "\<exists>fa'. insert_block fa p k = Inr fa' \<and> table_ok fa'
           \<and> free_blocks fa' = insert (p, k) (free_blocks fa)"
proof -
  let ?fa' = "fa[k := insert_slot p (fa ! k)]"
  have 1: "insert_block fa p k = Inr ?fa'"
    using assms(2) by (simp add: insert_block_def)
  have 2: "table_ok ?fa'"
    using assms by (auto simp: table_ok_def nth_list_update sorted_insert_slot)
  have 3: "free_blocks ?fa' = insert (p, k) (free_blocks fa)"
    using assms(1,2) by (auto simp: table_ok_def nth_list_update split: if_splits)
  from 1 2 3 show ?thesis by blast
qed

lemma remove_block_ok:
  assumes "table_ok fa" "(p, k) \<in> free_blocks fa"
  shows "\<exists>fa'. remove_block fa p k = Inr fa' \<and> table_ok fa'
           \<and> free_blocks fa' = free_blocks fa - {(p, k)}"
proof -
  from assms(2) have k: "k \<le> MAX_ORDER" and p: "p \<in> set (fa ! k)" by simp_all
  let ?fa' = "fa[k := remove1 p (fa ! k)]"
  have s: "sorted_wrt (<) (fa ! k)" using assms(1) k by (simp add: table_ok_def)
  have 1: "remove_block fa p k = Inr ?fa'"
    using k p by (simp add: remove_block_def unlink_slot_eq)
  have 2: "table_ok ?fa'"
    using assms(1) k by (auto simp: table_ok_def nth_list_update sorted_remove1_strict)
  have 3: "free_blocks ?fa' = free_blocks fa - {(p, k)}"
    using assms(1) k set_remove1_strict [OF s, of p]
    by (auto simp: table_ok_def nth_list_update split: if_splits)
  from 1 2 3 show ?thesis by blast
qed

lemma remove_block_Inr:
  assumes "remove_block fa p k = Inr fa'"
  shows "(p, k) \<in> free_blocks fa"
  using assms by (auto simp: remove_block_def unlink_slot_eq split: if_splits)

lemma table_eqI:
  assumes "table_ok fa" "table_ok fa'" "free_blocks fa = free_blocks fa'"
  shows "fa = fa'"
proof (rule nth_equalityI)
  show "length fa = length fa'" using assms by (simp add: table_ok_def)
next
  fix k assume "k < length fa"
  then have k: "k \<le> MAX_ORDER" using assms(1) by (simp add: table_ok_def)
  have "set (fa ! k) = set (fa' ! k)"
  proof (rule set_eqI)
    fix b
    have "(b, k) \<in> free_blocks fa \<longleftrightarrow> (b, k) \<in> free_blocks fa'" using assms(3) by simp
    then show "b \<in> set (fa ! k) \<longleftrightarrow> b \<in> set (fa' ! k)" using k by simp
  qed
  then show "fa ! k = fa' ! k"
    using assms(1,2) k by (auto simp: table_ok_def intro: strict_sorted_unique)
qed

subsection \<open>Sets of blocks\<close>

lemma aligned_set_free_blocks:
  "aligned_set (free_blocks fa) \<longleftrightarrow> (\<forall>(b, k) \<in> free_blocks fa. is_correct_alignment_for_order b k)"
  by (auto simp: aligned_set_def aligned_dvd)

lemma structural_inv_iff:
  "structural_inv fa \<longleftrightarrow>
     table_ok fa \<and> aligned_set (free_blocks fa) \<and> disjoint_set (free_blocks fa)"
  unfolding structural_inv_def table_ok_def disjoint_set_def aligned_set_free_blocks
  by blast

lemma eager_merged_iff: "eager_merged fa \<longleftrightarrow> merged_set (free_blocks fa)"
  unfolding eager_merged_def merged_set_def buddy_of_eq
  by (simp split: if_splits)

lemma free_pfns_eq: "free_pfns fa = pfns (free_blocks fa)"
  by (simp add: free_pfns_def pfns_def)

lemma aligned_setD: "aligned_set B \<Longrightarrow> (b, k) \<in> B \<Longrightarrow> k \<le> MAX_ORDER \<and> 2 ^ k dvd b"
  by (auto simp: aligned_set_def)

lemma disjoint_setD:
  "disjoint_set B \<Longrightarrow> (b, k) \<in> B \<Longrightarrow> (b', k') \<in> B \<Longrightarrow> (b, k) \<noteq> (b', k')
   \<Longrightarrow> block_pages b k \<inter> block_pages b' k' = {}"
  unfolding disjoint_set_def by blast

lemma disjoint_setI:
  assumes "\<And>b k b' k'. (b, k) \<in> B \<Longrightarrow> (b', k') \<in> B \<Longrightarrow> (b, k) \<noteq> (b', k')
             \<Longrightarrow> block_pages b k \<inter> block_pages b' k' = {}"
  shows "disjoint_set B"
  unfolding disjoint_set_def using assms by blast

lemma merged_setI:
  assumes "\<And>b k. (b, k) \<in> B \<Longrightarrow> k < MAX_ORDER \<Longrightarrow> 2 ^ k dvd b
             \<Longrightarrow> (buddy_pfn b k, k) \<in> B \<Longrightarrow> False"
  shows "merged_set B"
  unfolding merged_set_def using assms by blast

lemma merged_setD:
  "merged_set B \<Longrightarrow> (b, k) \<in> B \<Longrightarrow> k < MAX_ORDER \<Longrightarrow> 2 ^ k dvd b
   \<Longrightarrow> (buddy_pfn b k, k) \<notin> B"
  by (auto simp: merged_set_def)

lemma aligned_set_subset: "aligned_set B \<Longrightarrow> A \<subseteq> B \<Longrightarrow> aligned_set A"
  by (auto simp: aligned_set_def)

lemma disjoint_set_subset: "disjoint_set B \<Longrightarrow> A \<subseteq> B \<Longrightarrow> disjoint_set A"
  unfolding disjoint_set_def by blast

lemma merged_set_subset: "merged_set B \<Longrightarrow> A \<subseteq> B \<Longrightarrow> merged_set A"
  unfolding merged_set_def by blast

lemma pfns_insert: "pfns (insert (b, k) B) = block_pages b k \<union> pfns B"
  by (simp add: pfns_def)

lemma in_pfnsI: "(b, k) \<in> B \<Longrightarrow> x \<in> block_pages b k \<Longrightarrow> x \<in> pfns B"
  by (auto simp: pfns_def)

lemma in_pfnsE:
  assumes "x \<in> pfns B"
  obtains b k where "(b, k) \<in> B" "x \<in> block_pages b k"
  using assms by (auto simp: pfns_def)

lemma pfns_remove:
  assumes "disjoint_set B" "(b, k) \<in> B"
  shows "pfns (B - {(b, k)}) = pfns B - block_pages b k"
proof (rule set_eqI)
  fix x
  show "x \<in> pfns (B - {(b, k)}) \<longleftrightarrow> x \<in> pfns B - block_pages b k"
  proof
    assume "x \<in> pfns (B - {(b, k)})"
    then obtain c j where "(c, j) \<in> B - {(b, k)}" "x \<in> block_pages c j"
      by (rule in_pfnsE)
    then have c: "(c, j) \<in> B" "(c, j) \<noteq> (b, k)" "x \<in> block_pages c j"
      by blast+
    then have "block_pages c j \<inter> block_pages b k = {}"
      using disjoint_setD [OF assms(1) c(1) assms(2)] by simp
    moreover have "x \<in> pfns B" using c(1,3) by (rule in_pfnsI)
    ultimately show "x \<in> pfns B - block_pages b k"
      using c(3) by blast
  next
    assume "x \<in> pfns B - block_pages b k"
    then have "x \<in> pfns B" and nx: "x \<notin> block_pages b k" by blast+
    then obtain c j where c: "(c, j) \<in> B" "x \<in> block_pages c j"
      by (elim in_pfnsE)
    then have "(c, j) \<in> B - {(b, k)}" using nx by blast
    then show "x \<in> pfns (B - {(b, k)})" using c(2) by (rule in_pfnsI)
  qed
qed

lemma insert_block_sets:
  assumes "aligned_set B" "disjoint_set B" "k \<le> MAX_ORDER" "2 ^ k dvd p"
    and "block_pages p k \<inter> pfns B = {}"
  shows "aligned_set (insert (p, k) B)" "disjoint_set (insert (p, k) B)" "(p, k) \<notin> B"
proof -
  show "aligned_set (insert (p, k) B)"
    using assms(1,3,4) by (auto simp: aligned_set_def)
  have d: "block_pages p k \<inter> block_pages c j = {}" if "(c, j) \<in> B" for c j
  proof -
    have "block_pages c j \<subseteq> pfns B"
      using that by (auto simp: pfns_def)
    then show ?thesis using assms(5) by blast
  qed
  show "(p, k) \<notin> B"
    using d [of p k] block_pages_self [of p k] by auto
  show "disjoint_set (insert (p, k) B)"
  proof (rule disjoint_setI)
    fix b i b' i'
    assume m: "(b, i) \<in> insert (p, k) B" "(b', i') \<in> insert (p, k) B" "(b, i) \<noteq> (b', i')"
    show "block_pages b i \<inter> block_pages b' i' = {}"
    proof (cases "(b, i) = (p, k)")
      case True
      with m have "(b', i') \<in> B" by auto
      then show ?thesis using d [of b' i'] True by simp
    next
      case False
      with m have bi: "(b, i) \<in> B" by auto
      show ?thesis
      proof (cases "(b', i') = (p, k)")
        case True
        then show ?thesis using d [OF bi] by auto
      next
        case False
        with m have "(b', i') \<in> B" by auto
        then show ?thesis using disjoint_setD [OF assms(2) bi _ m(3)] by simp
      qed
    qed
  qed
qed

lemma merge_sets:
  assumes al: "aligned_set B" and dj: "disjoint_set B"
    and p: "(p, k) \<in> B" and q: "(buddy_pfn p k, k) \<in> B" and k: "k < MAX_ORDER"
  defines "B0 \<equiv> B - {(p, k)} - {(buddy_pfn p k, k)}"
  shows "(parent_pfn p k, Suc k) \<notin> B0"
    and "aligned_set (insert (parent_pfn p k, Suc k) B0)"
    and "disjoint_set (insert (parent_pfn p k, Suc k) B0)"
    and "pfns (insert (parent_pfn p k, Suc k) B0) = pfns B"
proof -
  have pk: "2 ^ k dvd p" using aligned_setD [OF al p] by simp
  have pp: "block_pages (parent_pfn p k) (Suc k) = block_pages p k \<union> block_pages (buddy_pfn p k) k"
    using parent_pages [OF pk] .
  have ne: "buddy_pfn p k \<noteq> p"
    using buddy_disjoint [OF pk] block_pages_self [of p k] by auto
  have "B0 \<subseteq> B" by (auto simp: B0_def)
  then have al0: "aligned_set B0" and dj0: "disjoint_set B0"
    using aligned_set_subset [OF al] disjoint_set_subset [OF dj] by blast+
  have d1: "disjoint_set (B - {(p, k)})"
    by (rule disjoint_set_subset [OF dj]) blast
  have q1: "(buddy_pfn p k, k) \<in> B - {(p, k)}" using q ne by simp
  have "pfns B0 = pfns (B - {(p, k)}) - block_pages (buddy_pfn p k) k"
    unfolding B0_def using pfns_remove [OF d1 q1] .
  also have "pfns (B - {(p, k)}) = pfns B - block_pages p k"
    using pfns_remove [OF dj p] .
  finally have pf0: "pfns B0 = pfns B - block_pages p k - block_pages (buddy_pfn p k) k" .
  have sub: "block_pages p k \<union> block_pages (buddy_pfn p k) k \<subseteq> pfns B"
    using in_pfnsI [OF p] in_pfnsI [OF q] by blast
  have dis: "block_pages (parent_pfn p k) (Suc k) \<inter> pfns B0 = {}"
    using pf0 pp by blast
  have "2 ^ Suc k dvd parent_pfn p k" using parent_aligned [OF pk] .
  moreover have "Suc k \<le> MAX_ORDER" using k by simp
  ultimately show "aligned_set (insert (parent_pfn p k, Suc k) B0)"
    "disjoint_set (insert (parent_pfn p k, Suc k) B0)" "(parent_pfn p k, Suc k) \<notin> B0"
    using insert_block_sets [OF al0 dj0 _ _ dis] by auto
  show "pfns (insert (parent_pfn p k, Suc k) B0) = pfns B"
    unfolding pfns_insert using pf0 pp sub by blast
qed

lemma merged_set_finish:
  assumes "merged_set (B - {(p, k)})" "aligned_set B" "(p, k) \<in> B"
    and "k < MAX_ORDER \<Longrightarrow> (buddy_pfn p k, k) \<notin> B"
  shows "merged_set B"
proof (rule merged_setI)
  fix b j
  assume b: "(b, j) \<in> B" "j < MAX_ORDER" "2 ^ j dvd b" "(buddy_pfn b j, j) \<in> B"
  show False
  proof (cases "(b, j) = (p, k)")
    case True
    then have "b = p" "j = k" by simp_all
    then show False using assms(4) b(2,4) by simp
  next
    case False
    then have 1: "(b, j) \<in> B - {(p, k)}" using b(1) by simp
    have "(buddy_pfn b j, j) \<notin> B - {(p, k)}"
      using merged_setD [OF assms(1) 1 b(2,3)] .
    with b(4) have "(buddy_pfn b j, j) = (p, k)" by blast
    then have e: "buddy_pfn b j = p" "j = k" by blast+
    have "buddy_pfn (buddy_pfn b j) j = b" using buddy_involution [OF b(3)] .
    then have "buddy_pfn p k = b" using e by simp
    then show False using assms(4) b(1,2) e(2) by simp
  qed
qed

section \<open>Freeing and merging\<close>

subsection \<open>Merging\<close>

lemma merge_block_ok:
  assumes t: "table_ok fa" and al: "aligned_set (free_blocks fa)"
    and dj: "disjoint_set (free_blocks fa)"
    and p: "(p, k) \<in> free_blocks fa" and q: "(buddy_pfn p k, k) \<in> free_blocks fa"
    and k: "k < MAX_ORDER"
  shows "\<exists>fa'. merge_block fa p k = Inr (fa', parent_pfn p k) \<and> table_ok fa'
           \<and> free_blocks fa' =
               insert (parent_pfn p k, Suc k) (free_blocks fa - {(p, k)} - {(buddy_pfn p k, k)})"
proof -
  have pk: "2 ^ k dvd p" using aligned_setD [OF al p] by simp
  have ne: "buddy_pfn p k \<noteq> p"
    using buddy_disjoint [OF pk] block_pages_self [of p k] by auto
  have bo: "buddy_of p k = Some (buddy_pfn p k)"
    using k pk by (simp add: buddy_of_eq)
  from remove_block_ok [OF t p] obtain fa1 where
    fa1: "remove_block fa p k = Inr fa1" "table_ok fa1" "free_blocks fa1 = free_blocks fa - {(p, k)}"
    by blast
  have q1: "(buddy_pfn p k, k) \<in> free_blocks fa1"
    using q ne fa1(3) by simp
  from remove_block_ok [OF fa1(2) q1] obtain fa2 where
    fa2: "remove_block fa1 (buddy_pfn p k) k = Inr fa2" "table_ok fa2"
      "free_blocks fa2 = free_blocks fa - {(p, k)} - {(buddy_pfn p k, k)}"
    using fa1(3) by auto
  have nin: "(parent_pfn p k, Suc k) \<notin> free_blocks fa2"
    using merge_sets(1) [OF al dj p q k] fa2(3) by simp
  have sk: "Suc k \<le> MAX_ORDER" using k by simp
  from insert_block_ok [OF fa2(2) sk nin] obtain fa3 where
    fa3: "insert_block fa2 (parent_pfn p k) (Suc k) = Inr fa3" "table_ok fa3"
      "free_blocks fa3 = insert (parent_pfn p k, Suc k) (free_blocks fa2)"
    by blast
  have "merge_block fa p k = Inr (fa3, parent_pfn p k)"
  proof (cases "2 ^ Suc k dvd p")
    case True
    then have "parent_pfn p k = p" by (simp add: parent_pfn_def)
    then show ?thesis
      using True pk bo fa1(1) fa2(1) fa3(1)
      by (simp add: merge_block_def aligned_dvd)
  next
    case False
    then have "parent_pfn p k = buddy_pfn p k" by (simp add: parent_pfn_def buddy_pfn_def)
    then show ?thesis
      using False pk bo fa1(1) fa2(1) fa3(1)
      by (simp add: merge_block_def aligned_dvd)
  qed
  then show ?thesis using fa3(2,3) fa2(3) by simp
qed

lemma merge_loop_top: "MAX_ORDER \<le> k \<Longrightarrow> merge_loop fa p k ys bud = Inr fa"
  by (subst merge_loop.simps) simp

lemma merge_loop_miss: "bud \<notin> Some ` set ys \<Longrightarrow> merge_loop fa p k ys bud = Inr fa"
proof (induction ys)
  case Nil
  show ?case by (subst merge_loop.simps) simp
next
  case (Cons y ys)
  then have "Some y \<noteq> bud" "bud \<notin> Some ` set ys" by auto
  then show ?case
    using Cons.IH by (subst merge_loop.simps) simp
qed

lemma merge_loop_hit:
  "k < MAX_ORDER \<Longrightarrow> q \<in> set ys \<Longrightarrow>
   merge_loop fa p k ys (Some q) =
     (case merge_block fa p k of
        Inl e \<Rightarrow> Inl e
      | Inr (fa', p') \<Rightarrow>
          merge_loop fa' p' (k + 1) (fa' ! (k + 1)) (buddy_of p' (k + 1)))"
proof (induction ys)
  case Nil
  then show ?case by simp
next
  case (Cons y ys)
  show ?case
  proof (cases "y = q")
    case True
    then show ?thesis
      using Cons.prems(1) by (subst merge_loop.simps) simp
  next
    case False
    with Cons.prems have "q \<in> set ys" by simp
    then show ?thesis
      using Cons.IH Cons.prems(1) False by (subst merge_loop.simps) simp
  qed
qed

lemma merge_loop_ok:
  assumes "table_ok fa" "aligned_set (free_blocks fa)" "disjoint_set (free_blocks fa)"
    and "(p, k) \<in> free_blocks fa"
  shows "\<exists>fa'. merge_loop fa p k (fa ! k) (buddy_of p k) = Inr fa' \<and> table_ok fa'
           \<and> aligned_set (free_blocks fa') \<and> disjoint_set (free_blocks fa')
           \<and> pfns (free_blocks fa') = pfns (free_blocks fa)
           \<and> (merged_set (free_blocks fa - {(p, k)}) \<longrightarrow> merged_set (free_blocks fa'))"
  using assms
proof (induction "MAX_ORDER - k" arbitrary: fa p k)
  case 0
  then have k: "MAX_ORDER \<le> k" by simp
  have "merged_set (free_blocks fa)" if "merged_set (free_blocks fa - {(p, k)})"
    using merged_set_finish [OF that "0.prems"(2,4)] k by simp
  then show ?case
    using merge_loop_top [OF k] "0.prems" by simp
next
  case (Suc n)
  then have k: "k < MAX_ORDER" by simp
  have pk: "2 ^ k dvd p" using aligned_setD [OF Suc.prems(2,4)] by simp
  have bo: "buddy_of p k = Some (buddy_pfn p k)"
    using k pk by (simp add: buddy_of_eq)
  show ?case
  proof (cases "(buddy_pfn p k, k) \<in> free_blocks fa")
    case False
    then have "buddy_of p k \<notin> Some ` set (fa ! k)"
      using bo k by auto
    then have 1: "merge_loop fa p k (fa ! k) (buddy_of p k) = Inr fa"
      by (rule merge_loop_miss)
    have "merged_set (free_blocks fa)" if "merged_set (free_blocks fa - {(p, k)})"
      using merged_set_finish [OF that Suc.prems(2,4)] False by simp
    then show ?thesis
      using 1 Suc.prems by simp
  next
    case True
    let ?B0 = "free_blocks fa - {(p, k)} - {(buddy_pfn p k, k)}"
    let ?par = "parent_pfn p k"
    from merge_block_ok [OF Suc.prems(1,2,3,4) True k] obtain fa1 where
      fa1: "merge_block fa p k = Inr (fa1, ?par)" "table_ok fa1"
        "free_blocks fa1 = insert (?par, Suc k) ?B0"
      by blast
    note ms = merge_sets [OF Suc.prems(2,3,4) True k]
    have a1: "aligned_set (free_blocks fa1)" and d1: "disjoint_set (free_blocks fa1)"
      and f1: "pfns (free_blocks fa1) = pfns (free_blocks fa)"
      using ms(2,3,4) fa1(3) by simp_all
    have in1: "(?par, Suc k) \<in> free_blocks fa1" using fa1(3) by simp
    have n: "n = MAX_ORDER - Suc k" using Suc.hyps(2) by simp
    from Suc.hyps(1) [OF n fa1(2) a1 d1 in1] obtain fa' where
      fa': "merge_loop fa1 ?par (Suc k) (fa1 ! Suc k) (buddy_of ?par (Suc k)) = Inr fa'"
        "table_ok fa'" "aligned_set (free_blocks fa')" "disjoint_set (free_blocks fa')"
        "pfns (free_blocks fa') = pfns (free_blocks fa1)"
        "merged_set (free_blocks fa1 - {(?par, Suc k)}) \<longrightarrow> merged_set (free_blocks fa')"
      by blast
    have q: "buddy_pfn p k \<in> set (fa ! k)" using True by simp
    have 1: "merge_loop fa p k (fa ! k) (buddy_of p k) = Inr fa'"
      unfolding bo using merge_loop_hit [OF k q, of fa p] fa1(1) fa'(1) by simp
    have "merged_set (free_blocks fa')" if m: "merged_set (free_blocks fa - {(p, k)})"
    proof -
      have "free_blocks fa1 - {(?par, Suc k)} \<subseteq> free_blocks fa - {(p, k)}"
        using fa1(3) by blast
      then have "merged_set (free_blocks fa1 - {(?par, Suc k)})"
        by (rule merged_set_subset [OF m])
      with fa'(6) show ?thesis by simp
    qed
    then show ?thesis
      using 1 fa'(2,3,4,5) f1 by simp
  qed
qed

lemma free_pages_ok:
  assumes t: "table_ok fa" and al: "aligned_set (free_blocks fa)"
    and dj: "disjoint_set (free_blocks fa)"
    and k: "k \<le> MAX_ORDER" and pk: "2 ^ k dvd p"
    and fr: "block_pages p k \<inter> pfns (free_blocks fa) = {}"
  shows "\<exists>fa'. free_pages fa p k = Inr fa' \<and> table_ok fa'
           \<and> aligned_set (free_blocks fa') \<and> disjoint_set (free_blocks fa')
           \<and> pfns (free_blocks fa') = pfns (free_blocks fa) \<union> block_pages p k
           \<and> (merged_set (free_blocks fa) \<longrightarrow> merged_set (free_blocks fa'))"
proof -
  note ibs = insert_block_sets [OF al dj k pk fr]
  from insert_block_ok [OF t k ibs(3)] obtain fa1 where
    fa1: "insert_block fa p k = Inr fa1" "table_ok fa1"
      "free_blocks fa1 = insert (p, k) (free_blocks fa)"
    by blast
  have a1: "aligned_set (free_blocks fa1)" and d1: "disjoint_set (free_blocks fa1)"
    using ibs(1,2) fa1(3) by simp_all
  have in1: "(p, k) \<in> free_blocks fa1" using fa1(3) by simp
  from merge_loop_ok [OF fa1(2) a1 d1 in1] obtain fa' where
    fa': "merge_loop fa1 p k (fa1 ! k) (buddy_of p k) = Inr fa'"
      "table_ok fa'" "aligned_set (free_blocks fa')" "disjoint_set (free_blocks fa')"
      "pfns (free_blocks fa') = pfns (free_blocks fa1)"
      "merged_set (free_blocks fa1 - {(p, k)}) \<longrightarrow> merged_set (free_blocks fa')"
    by blast
  have 1: "free_pages fa p k = Inr fa'"
    using pk k fa1(1) fa'(1) by (simp add: free_pages_def repeated_merge_def aligned_dvd)
  have 2: "pfns (free_blocks fa') = pfns (free_blocks fa) \<union> block_pages p k"
    using fa'(5) fa1(3) by (simp add: pfns_insert Un_commute)
  have "free_blocks fa1 - {(p, k)} = free_blocks fa"
    using fa1(3) ibs(3) by blast
  then have 3: "merged_set (free_blocks fa) \<longrightarrow> merged_set (free_blocks fa')"
    using fa'(6) by simp
  from 1 2 3 fa'(2,3,4) show ?thesis by simp
qed

section \<open>Ranges\<close>

subsection \<open>Inserting a range\<close>

lemma pick_size_greedy:
  assumes "0 < count"
  shows "\<exists>k. pick_size start count n = Some k \<and> k \<le> n \<and> 2 ^ k \<le> count \<and> 2 ^ k dvd start
           \<and> (\<forall>j \<le> n. 2 ^ j \<le> count \<and> 2 ^ j dvd start \<longrightarrow> j \<le> k)"
proof (induction n)
  case 0
  show ?case
    using assms
    by (subst pick_size.simps) (simp add: pages_per_block_def aligned_dvd)
next
  case (Suc n)
  show ?case
  proof (cases "2 ^ Suc n \<le> count \<and> 2 ^ Suc n dvd start")
    case True
    then have "pick_size start count (Suc n) = Some (Suc n)"
      by (subst pick_size.simps) (simp add: pages_per_block_def aligned_dvd)
    with True show ?thesis by simp
  next
    case False
    then have e: "pick_size start count (Suc n) = pick_size start count n"
      by (subst pick_size.simps) (auto simp: pages_per_block_def aligned_dvd)
    from Suc.IH obtain k where k: "pick_size start count n = Some k" "k \<le> n"
      "2 ^ k \<le> count" "2 ^ k dvd start"
      "\<forall>j \<le> n. 2 ^ j \<le> count \<and> 2 ^ j dvd start \<longrightarrow> j \<le> k"
      by blast
    have "\<forall>j \<le> Suc n. 2 ^ j \<le> count \<and> 2 ^ j dvd start \<longrightarrow> j \<le> k"
    proof (intro allI impI)
      fix j assume j: "j \<le> Suc n" "2 ^ j \<le> count \<and> 2 ^ j dvd start"
      with False have "j \<noteq> Suc n" by auto
      with j(1) have "j \<le> n" by simp
      with k(5) j(2) show "j \<le> k" by simp
    qed
    with e k show ?thesis by auto
  qed
qed

lemma insert_page_range_step:
  assumes "0 < count" "pick_size start count MAX_ORDER = Some k"
  shows "insert_page_range fa start count =
           (case free_pages fa start k of
              Inl e \<Rightarrow> Inl e
            | Inr fa' \<Rightarrow> insert_page_range fa' (start + pages_per_block k) (count - pages_per_block k))"
  using assms by (subst insert_page_range.simps) simp

lemma insert_page_range_zero [simp]: "insert_page_range fa start 0 = Inr fa"
  by (subst insert_page_range.simps) simp

lemma insert_page_range_ok:
  assumes "table_ok fa" "aligned_set (free_blocks fa)" "disjoint_set (free_blocks fa)"
    and "{start ..< start + count} \<inter> pfns (free_blocks fa) = {}"
  shows "\<exists>fa'. insert_page_range fa start count = Inr fa' \<and> table_ok fa'
           \<and> aligned_set (free_blocks fa') \<and> disjoint_set (free_blocks fa')
           \<and> pfns (free_blocks fa') = pfns (free_blocks fa) \<union> {start ..< start + count}
           \<and> (merged_set (free_blocks fa) \<longrightarrow> merged_set (free_blocks fa'))"
  using assms
proof (induction count arbitrary: fa start rule: less_induct)
  case (less count)
  show ?case
  proof (cases "count = 0")
    case True
    then show ?thesis using less.prems by simp
  next
    case False
    then have pos: "0 < count" by simp
    from pick_size_greedy [OF pos, of start MAX_ORDER] obtain k where
      k: "pick_size start count MAX_ORDER = Some k" "k \<le> MAX_ORDER" "2 ^ k \<le> count"
        "2 ^ k dvd start"
      by blast
    have bp: "block_pages start k \<subseteq> {start ..< start + count}"
      using k(3) by (auto simp: block_pages_def pages_per_block_def)
    then have fr: "block_pages start k \<inter> pfns (free_blocks fa) = {}"
      using less.prems(4) by blast
    from free_pages_ok [OF less.prems(1,2,3) k(2,4) fr] obtain fa1 where
      fa1: "free_pages fa start k = Inr fa1" "table_ok fa1"
        "aligned_set (free_blocks fa1)" "disjoint_set (free_blocks fa1)"
        "pfns (free_blocks fa1) = pfns (free_blocks fa) \<union> block_pages start k"
        "merged_set (free_blocks fa) \<longrightarrow> merged_set (free_blocks fa1)"
      by blast
    let ?s = "start + pages_per_block k" and ?c = "count - pages_per_block k"
    have lt: "?c < count" using pos by (simp add: pages_per_block_def)
    have rng: "{start ..< start + count} = block_pages start k \<union> {?s ..< ?s + ?c}"
      using k(3) by (auto simp: block_pages_def pages_per_block_def)
    have dis: "block_pages start k \<inter> {?s ..< ?s + ?c} = {}"
      by (auto simp: block_pages_def pages_per_block_def)
    have fr1: "{?s ..< ?s + ?c} \<inter> pfns (free_blocks fa1) = {}"
      using fa1(5) less.prems(4) rng dis by blast
    from less.IH [OF lt fa1(2,3,4) fr1] obtain fa' where
      fa': "insert_page_range fa1 ?s ?c = Inr fa'" "table_ok fa'"
        "aligned_set (free_blocks fa')" "disjoint_set (free_blocks fa')"
        "pfns (free_blocks fa') = pfns (free_blocks fa1) \<union> {?s ..< ?s + ?c}"
        "merged_set (free_blocks fa1) \<longrightarrow> merged_set (free_blocks fa')"
      by blast
    have 1: "insert_page_range fa start count = Inr fa'"
      using insert_page_range_step [OF pos k(1), of fa] fa1(1) fa'(1) by simp
    have 2: "pfns (free_blocks fa') = pfns (free_blocks fa) \<union> {start ..< start + count}"
      using fa'(5) fa1(5) rng by blast
    from 1 2 fa'(2,3,4,6) fa1(6) show ?thesis by simp
  qed
qed

lemma init_loop_eq:
  "length fa = Suc MAX_ORDER \<Longrightarrow> i \<le> Suc MAX_ORDER \<Longrightarrow>
   init_loop fa i = take i fa @ replicate (Suc MAX_ORDER - i) []"
proof (induction fa i rule: init_loop.induct)
  case (1 fa i)
  show ?case
  proof (cases "i \<le> MAX_ORDER")
    case False
    with "1.prems" have "i = Suc MAX_ORDER" by simp
    with "1.prems" show ?thesis
      by (subst init_loop.simps) simp
  next
    case True
    have "init_loop fa i = init_loop (fa[i := []]) (i + 1)"
      using True by (subst init_loop.simps) simp
    also have "\<dots> = take (i + 1) (fa[i := []]) @ replicate (Suc MAX_ORDER - (i + 1)) []"
      using "1.IH" [OF True] "1.prems" True by simp
    also have "take (i + 1) (fa[i := []]) = take i fa @ [[]]"
      using "1.prems" True by (simp add: take_Suc_conv_app_nth)
    also have "(take i fa @ [[]]) @ replicate (Suc MAX_ORDER - (i + 1)) []
               = take i fa @ replicate (Suc MAX_ORDER - i) []"
      using True by (simp add: Suc_diff_le replicate_append_same)
    finally show ?thesis .
  qed
qed

lemma init_empty: "length fa = Suc MAX_ORDER \<Longrightarrow> fst (init fa pd nr) = empty_areas"
  by (simp add: init_def init_loop_eq empty_areas_def)

subsection \<open>Removing a range\<close>

lemma scan_area_SomeD:
  "scan_area xs sz start = Some b \<Longrightarrow> b \<in> set xs \<and> b \<le> start \<and> start \<le> b + sz - 1"
  by (induction xs) (auto simp: Let_def split: if_splits)

lemma scan_area_complete:
  "sorted_wrt (<) xs \<Longrightarrow> b \<in> set xs \<Longrightarrow> b \<le> start \<Longrightarrow> start \<le> b + sz - 1
   \<Longrightarrow> \<exists>b'. scan_area xs sz start = Some b'"
  by (induction xs) (auto simp: Let_def)

lemma in_block_pages_iff: "x \<in> block_pages b k \<longleftrightarrow> b \<le> x \<and> x \<le> b + 2 ^ k - 1"
proof -
  have "1 \<le> (2::nat) ^ k" by simp
  then show ?thesis
    unfolding block_pages_def pages_per_block_def atLeastLessThan_iff by linarith
qed

lemma unat_word_of_order: "n \<le> MAX_ORDER \<Longrightarrow> unat (word_of_nat n :: 32 word) = n"
  by (simp add: unat_of_nat MAX_ORDER_def)

lemma find_block_unfold:
  assumes "n \<le> MAX_ORDER"
  shows "find_block fa start (word_of_nat n) =
           (case scan_area (fa ! n) (2 ^ n) start of
              Some b \<Rightarrow> Inr (Some (n, b))
            | None \<Rightarrow> (case n of 0 \<Rightarrow> Inl OutOfBounds
                        | Suc m \<Rightarrow> find_block fa start (word_of_nat m)))"
proof -
  have u: "unat (word_of_nat n :: 32 word) = n" using assms by (rule unat_word_of_order)
  have w: "find_block fa start (- 1) = Inl OutOfBounds"
    by (subst find_block.simps)
       (simp add: MAX_ORDER_def unsigned_minus_1_eq_mask mask_eq_exp_minus_1)
  show ?thesis
  proof (cases n)
    case 0
    then show ?thesis
      using assms w by (subst find_block.simps) (simp add: pages_per_block_def split: option.splits)
  next
    case (Suc m)
    have "(word_of_nat (Suc m) :: 32 word) - 1 = word_of_nat m" by simp
    then show ?thesis
      using assms u Suc
      by (subst find_block.simps) (simp add: pages_per_block_def split: option.splits)
  qed
qed

lemma find_block_0:
  "find_block fa start (word_of_nat 0) =
     (case scan_area (fa ! 0) (2 ^ 0) start of
        Some b \<Rightarrow> Inr (Some (0, b))
      | None \<Rightarrow> Inl OutOfBounds)"
  using find_block_unfold [of 0 fa start] by (simp split: option.splits)

lemma find_block_Suc:
  "Suc n \<le> MAX_ORDER \<Longrightarrow>
   find_block fa start (word_of_nat (Suc n)) =
     (case scan_area (fa ! Suc n) (2 ^ Suc n) start of
        Some b \<Rightarrow> Inr (Some (Suc n, b))
      | None \<Rightarrow> find_block fa start (word_of_nat n))"
  using find_block_unfold [of "Suc n" fa start] by (simp split: option.splits)

lemma find_block_hit:
  assumes "n \<le> MAX_ORDER" "k \<le> n" "scan_area (fa ! k) (2 ^ k) start = Some b"
    and "\<forall>j. k < j \<and> j \<le> n \<longrightarrow> scan_area (fa ! j) (2 ^ j) start = None"
  shows "find_block fa start (word_of_nat n) = Inr (Some (k, b))"
  using assms
proof (induction n)
  case 0
  then have "k = 0" by simp
  with "0.prems"(3) have "scan_area (fa ! 0) (2 ^ 0) start = Some b" by blast
  then show ?case
    unfolding \<open>k = 0\<close> by (simp only: find_block_0 option.case)
next
  case (Suc n)
  show ?case
  proof (cases "k = Suc n")
    case True
    with Suc.prems(3) have "scan_area (fa ! Suc n) (2 ^ Suc n) start = Some b" by blast
    then show ?thesis
      unfolding True by (simp only: find_block_Suc [OF Suc.prems(1)] option.case)
  next
    case False
    then have kn: "k \<le> n" "k < Suc n" using Suc.prems(2) by simp_all
    then have "scan_area (fa ! Suc n) (2 ^ Suc n) start = None"
      using Suc.prems(4) by blast
    then have "find_block fa start (word_of_nat (Suc n)) = find_block fa start (word_of_nat n)"
      by (simp only: find_block_Suc [OF Suc.prems(1)] option.case)
    moreover have "find_block fa start (word_of_nat n) = Inr (Some (k, b))"
      using Suc.IH [OF _ kn(1) Suc.prems(3)] Suc.prems(1,4) by simp
    ultimately show ?thesis by (simp only:)
  qed
qed

lemma find_block_miss:
  assumes "n \<le> MAX_ORDER" "\<forall>j \<le> n. scan_area (fa ! j) (2 ^ j) start = None"
  shows "find_block fa start (word_of_nat n) = Inl OutOfBounds"
  using assms
proof (induction n)
  case 0
  then have "scan_area (fa ! 0) (2 ^ 0) start = None" by blast
  then show ?case by (simp only: find_block_0 option.case)
next
  case (Suc n)
  then have "scan_area (fa ! Suc n) (2 ^ Suc n) start = None" by blast
  then have "find_block fa start (word_of_nat (Suc n)) = find_block fa start (word_of_nat n)"
    by (simp only: find_block_Suc [OF Suc.prems(1)] option.case)
  moreover have "find_block fa start (word_of_nat n) = Inl OutOfBounds"
    using Suc.IH Suc.prems by simp
  ultimately show ?case by (simp only:)
qed

lemma find_block_free:
  assumes t: "table_ok fa" and al: "aligned_set (free_blocks fa)"
    and dj: "disjoint_set (free_blocks fa)"
    and b: "(b, k) \<in> free_blocks fa" and s: "start \<in> block_pages b k"
  shows "find_block fa start (word_of_nat MAX_ORDER) = Inr (Some (k, b))"
proof -
  have k: "k \<le> MAX_ORDER" and bk: "b \<in> set (fa ! k)" using b by simp_all
  have srt: "sorted_wrt (<) (fa ! k)" using t k by (simp add: table_ok_def)
  have only: "c = b \<and> j = k" if "(c, j) \<in> free_blocks fa" "start \<in> block_pages c j" for c j
  proof (rule ccontr)
    assume "\<not> (c = b \<and> j = k)"
    then have "(c, j) \<noteq> (b, k)" by simp
    from disjoint_setD [OF dj that(1) b this] that(2) s show False by blast
  qed
  from scan_area_complete [OF srt bk] s obtain b' where
    b': "scan_area (fa ! k) (2 ^ k) start = Some b'"
    by (auto simp: in_block_pages_iff)
  from scan_area_SomeD [OF b'] k have "(b', k) \<in> free_blocks fa" "start \<in> block_pages b' k"
    by (simp_all add: in_block_pages_iff)
  then have "b' = b" using only by blast
  with b' have 1: "scan_area (fa ! k) (2 ^ k) start = Some b" by simp
  have 2: "\<forall>j. k < j \<and> j \<le> MAX_ORDER \<longrightarrow> scan_area (fa ! j) (2 ^ j) start = None"
  proof (intro allI impI)
    fix j assume j: "k < j \<and> j \<le> MAX_ORDER"
    show "scan_area (fa ! j) (2 ^ j) start = None"
    proof (cases "scan_area (fa ! j) (2 ^ j) start")
      case (Some c)
      from scan_area_SomeD [OF Some] j have "(c, j) \<in> free_blocks fa" "start \<in> block_pages c j"
        by (simp_all add: in_block_pages_iff)
      then have "j = k" using only by blast
      with j show ?thesis by simp
    qed simp
  qed
  show ?thesis using find_block_hit [OF _ k 1 2] by simp
qed

lemma find_block_not_free:
  assumes "start \<notin> pfns (free_blocks fa)"
  shows "find_block fa start (word_of_nat MAX_ORDER) = Inl OutOfBounds"
proof -
  have "\<forall>j \<le> MAX_ORDER. scan_area (fa ! j) (2 ^ j) start = None"
  proof (intro allI impI)
    fix j assume j: "j \<le> MAX_ORDER"
    show "scan_area (fa ! j) (2 ^ j) start = None"
    proof (cases "scan_area (fa ! j) (2 ^ j) start")
      case (Some c)
      from scan_area_SomeD [OF Some] j have "(c, j) \<in> free_blocks fa" "start \<in> block_pages c j"
        by (simp_all add: in_block_pages_iff)
      then have "start \<in> pfns (free_blocks fa)" by (rule in_pfnsI)
      with assms show ?thesis by simp
    qed simp
  qed
  then show ?thesis using find_block_miss [of MAX_ORDER fa start] by simp
qed

lemma remove_page_range_zero [simp]: "remove_page_range fa start 0 = Inr fa"
  by (subst remove_page_range.simps) simp

lemma remove_page_range_step:
  assumes "0 < count" "find_block fa start (word_of_nat MAX_ORDER) = Inr (Some (k, b))"
    and "remove_block fa b k = Inr fa1" "insert_page_range fa1 b (start - b) = Inr fa2"
    and "start < b + 2 ^ k"
  shows "remove_page_range fa start count =
           (if start + count \<le> b + 2 ^ k
            then insert_page_range fa2 (start + count) (b + 2 ^ k - (start + count))
            else remove_page_range fa2 (b + 2 ^ k) (start + count - (b + 2 ^ k)))"
proof -
  have "1 \<le> (2::nat) ^ k" by simp
  then have e0: "start + count - 1 \<le> b + 2 ^ k - 1 \<longleftrightarrow> start + count \<le> b + 2 ^ k"
    using assms(1) by linarith
  have e1: "start + count - 1 + 1 = start + count" using assms(1) by simp
  have e2: "b + 2 ^ k - (start + count - 1) - 1 = b + 2 ^ k - (start + count)"
    using assms(1) by simp
  have e3: "b + (2::nat) ^ k - 1 + 1 = b + 2 ^ k" by simp
  have e4: "count - (b + 2 ^ k - 1 - start + 1) = start + count - (b + 2 ^ k)"
    using assms(5) by simp
  have "remove_page_range fa start count =
           (if start + count - 1 \<le> b + 2 ^ k - 1
            then insert_page_range fa2 (start + count - 1 + 1) (b + 2 ^ k - (start + count - 1) - 1)
            else remove_page_range fa2 (b + 2 ^ k - 1 + 1) (count - (b + 2 ^ k - 1 - start + 1)))"
    using assms(1-4)
    by (subst remove_page_range.simps) (simp add: Let_def pages_per_block_def del: One_nat_def)
  then show ?thesis
    unfolding e0 e1 e2 e3 e4 .
qed

lemma remove_page_range_ok:
  assumes "table_ok fa" "aligned_set (free_blocks fa)" "disjoint_set (free_blocks fa)"
    and "{start ..< start + count} \<subseteq> pfns (free_blocks fa)"
  shows "\<exists>fa'. remove_page_range fa start count = Inr fa' \<and> table_ok fa'
           \<and> aligned_set (free_blocks fa') \<and> disjoint_set (free_blocks fa')
           \<and> pfns (free_blocks fa') = pfns (free_blocks fa) - {start ..< start + count}
           \<and> (merged_set (free_blocks fa) \<longrightarrow> merged_set (free_blocks fa'))"
  using assms
proof (induction count arbitrary: fa start rule: less_induct)
  case (less count)
  show ?case
  proof (cases "count = 0")
    case True
    then show ?thesis using less.prems by simp
  next
    case False
    then have pos: "0 < count" by simp
    let ?B = "free_blocks fa"
    have "start \<in> pfns ?B" using less.prems(4) pos by auto
    then obtain b k where bk: "(b, k) \<in> ?B" "start \<in> block_pages b k"
      by (rule in_pfnsE)
    then have sb: "b \<le> start" "start < b + 2 ^ k"
      by (simp_all add: block_pages_def pages_per_block_def)
    have fb: "find_block fa start (word_of_nat MAX_ORDER) = Inr (Some (k, b))"
      using find_block_free [OF less.prems(1,2,3) bk] .
    from remove_block_ok [OF less.prems(1) bk(1)] obtain fa1 where
      fa1: "remove_block fa b k = Inr fa1" "table_ok fa1" "free_blocks fa1 = ?B - {(b, k)}"
      by blast
    have a1: "aligned_set (free_blocks fa1)" and d1: "disjoint_set (free_blocks fa1)"
      unfolding fa1(3)
      using aligned_set_subset [OF less.prems(2)] disjoint_set_subset [OF less.prems(3)]
      by blast+
    have p1: "pfns (free_blocks fa1) = pfns ?B - block_pages b k"
      unfolding fa1(3) using pfns_remove [OF less.prems(3) bk(1)] .
    have m1: "merged_set ?B \<longrightarrow> merged_set (free_blocks fa1)"
      unfolding fa1(3) using merged_set_subset [of ?B "?B - {(b, k)}"] by blast
    have bp: "block_pages b k = {b ..< b + 2 ^ k}"
      by (simp add: block_pages_def pages_per_block_def)
    have l1: "{b ..< b + (start - b)} \<inter> pfns (free_blocks fa1) = {}"
      using p1 sb bp by auto
    from insert_page_range_ok [OF fa1(2) a1 d1 l1] obtain fa2 where
      fa2: "insert_page_range fa1 b (start - b) = Inr fa2" "table_ok fa2"
        "aligned_set (free_blocks fa2)" "disjoint_set (free_blocks fa2)"
        "pfns (free_blocks fa2) = pfns (free_blocks fa1) \<union> {b ..< b + (start - b)}"
        "merged_set (free_blocks fa1) \<longrightarrow> merged_set (free_blocks fa2)"
      by blast
    have p2: "pfns (free_blocks fa2) = (pfns ?B - {b ..< b + 2 ^ k}) \<union> {b ..< start}"
      using fa2(5) p1 bp sb(1) by simp
    note step = remove_page_range_step [OF pos fb fa1(1) fa2(1) sb(2)]
    show ?thesis
    proof (cases "start + count \<le> b + 2 ^ k")
      case True
      let ?s = "start + count" and ?c = "b + 2 ^ k - (start + count)"
      have sc: "?s + ?c = b + 2 ^ k" using True by simp
      have K: "{b ..< b + 2 ^ k} = {b ..< start} \<union> {start ..< start + count} \<union> {?s ..< ?s + ?c}"
        unfolding sc using sb True by auto
      have D: "{b ..< start} \<inter> {start ..< start + count} = {}"
        "{start ..< start + count} \<inter> {?s ..< ?s + ?c} = {}"
        "{b ..< start} \<inter> {?s ..< ?s + ?c} = {}"
        by auto
      have r: "{?s ..< ?s + ?c} \<inter> pfns (free_blocks fa2) = {}"
        unfolding p2 using K D by blast
      from insert_page_range_ok [OF fa2(2,3,4) r] obtain fa' where
        fa': "insert_page_range fa2 ?s ?c = Inr fa'" "table_ok fa'"
          "aligned_set (free_blocks fa')" "disjoint_set (free_blocks fa')"
          "pfns (free_blocks fa') = pfns (free_blocks fa2) \<union> {?s ..< ?s + ?c}"
          "merged_set (free_blocks fa2) \<longrightarrow> merged_set (free_blocks fa')"
        by blast
      have 1: "remove_page_range fa start count = Inr fa'"
        using step True fa'(1) by simp
      have "{b ..< b + 2 ^ k} \<subseteq> pfns ?B"
        using bk(1) bp in_pfnsI [OF bk(1)] by blast
      then have 2: "pfns (free_blocks fa') = pfns ?B - {start ..< start + count}"
        unfolding fa'(5) p2 using K D by blast
      from 1 2 fa'(2,3,4,6) fa2(6) m1 show ?thesis by simp
    next
      case False
      let ?s = "b + 2 ^ k" and ?c = "start + count - (b + 2 ^ k)"
      have lt: "?c < count" using sb(2) pos by linarith
      have sc: "?s + ?c = start + count" using False by simp
      have K: "{b ..< b + 2 ^ k} = {b ..< start} \<union> {start ..< b + 2 ^ k}"
        using sb by auto
      have le: "start \<le> b + 2 ^ k" "b + 2 ^ k \<le> start + count"
        using sb(2) False by linarith+
      have R: "{start ..< start + count} = {start ..< b + 2 ^ k} \<union> {?s ..< ?s + ?c}"
        unfolding sc using ivl_disj_un_two(3) [OF le] by simp
      have D: "{b ..< start} \<inter> {start ..< b + 2 ^ k} = {}"
        "{b ..< start} \<inter> {?s ..< ?s + ?c} = {}"
        "{start ..< b + 2 ^ k} \<inter> {?s ..< ?s + ?c} = {}"
        using le by auto
      have KP: "{b ..< b + 2 ^ k} \<subseteq> pfns ?B"
        using bp in_pfnsI [OF bk(1)] by blast
      have r: "{?s ..< ?s + ?c} \<subseteq> pfns (free_blocks fa2)"
        unfolding p2 using less.prems(4) K R D by blast
      from less.IH [OF lt fa2(2,3,4) r] obtain fa' where
        fa': "remove_page_range fa2 ?s ?c = Inr fa'" "table_ok fa'"
          "aligned_set (free_blocks fa')" "disjoint_set (free_blocks fa')"
          "pfns (free_blocks fa') = pfns (free_blocks fa2) - {?s ..< ?s + ?c}"
          "merged_set (free_blocks fa2) \<longrightarrow> merged_set (free_blocks fa')"
        by blast
      have 1: "remove_page_range fa start count = Inr fa'"
        using step False fa'(1) by simp
      have 2: "pfns (free_blocks fa') = pfns ?B - {start ..< start + count}"
        unfolding fa'(5) p2 using K R D KP by blast
      from 1 2 fa'(2,3,4,6) fa2(6) m1 show ?thesis by simp
    qed
  qed
qed

lemma remove_page_range_not_free:
  assumes "0 < count" "start \<notin> pfns (free_blocks fa)"
  shows "remove_page_range fa start count = Inl OutOfBounds"
  using assms find_block_not_free [OF assms(2)]
  by (subst remove_page_range.simps) simp

section \<open>Allocation and the invariants\<close>

subsection \<open>Allocation keeps the invariants\<close>

lemma find_free_SomeD:
  "order \<le> MAX_ORDER \<Longrightarrow> find_free fa order = Some free \<Longrightarrow>
   order \<le> free \<and> free \<le> MAX_ORDER \<and> fa ! free \<noteq> []
   \<and> (\<forall>j. order \<le> j \<and> j < free \<longrightarrow> fa ! j = [])"
proof (induction fa order rule: find_free.induct)
  case (1 fa ord)
  show ?case
  proof (cases "fa ! ord = []")
    case False
    then have "find_free fa ord = Some ord"
      using "1.prems"(1) by (subst find_free.simps) simp
    with "1.prems" False show ?thesis by auto
  next
    case True
    have ne: "ord \<noteq> MAX_ORDER"
    proof
      assume "ord = MAX_ORDER"
      then have "find_free fa ord = None"
        using True by (subst find_free.simps) simp
      with "1.prems"(2) show False by simp
    qed
    then have lt: "ord + 1 \<le> MAX_ORDER" using "1.prems"(1) by simp
    have "find_free fa ord = find_free fa (ord + 1)"
      using True ne "1.prems"(1) by (subst find_free.simps) simp
    then have "find_free fa (ord + 1) = Some free" using "1.prems"(2) by simp
    from "1.IH" [OF "1.prems"(1) _ True lt this] ne True
    have ih: "ord + 1 \<le> free" "free \<le> MAX_ORDER" "fa ! free \<noteq> []"
      "\<forall>j. ord + 1 \<le> j \<and> j < free \<longrightarrow> fa ! j = []"
      by simp_all
    have "\<forall>j. ord \<le> j \<and> j < free \<longrightarrow> fa ! j = []"
    proof (intro allI impI)
      fix j assume "ord \<le> j \<and> j < free"
      then consider "j = ord" | "ord + 1 \<le> j \<and> j < free" by linarith
      then show "fa ! j = []" using True ih(4) by cases auto
    qed
    with ih show ?thesis by simp
  qed
qed

lemma split_halves_pages:
  "order \<le> free \<Longrightarrow>
   (\<Union>j \<in> {order ..< free}. block_pages (b + 2 ^ j) j) = {b + 2 ^ order ..< b + 2 ^ free}"
proof (induction free)
  case 0
  then show ?case by simp
next
  case (Suc free)
  show ?case
  proof (cases "order = Suc free")
    case True
    then show ?thesis by simp
  next
    case False
    with Suc.prems have le: "order \<le> free" by simp
    have "{order ..< Suc free} = insert free {order ..< free}"
      using le by auto
    then have "(\<Union>j \<in> {order ..< Suc free}. block_pages (b + 2 ^ j) j)
               = block_pages (b + 2 ^ free) free \<union> {b + 2 ^ order ..< b + 2 ^ free}"
      using Suc.IH [OF le] by simp
    also have "\<dots> = {b + 2 ^ order ..< b + 2 ^ Suc free}"
    proof -
      have "(2::nat) ^ order \<le> 2 ^ free" using le by simp
      then obtain d where d: "(2::nat) ^ free = 2 ^ order + d"
        using le_iff_add by blast
      show ?thesis
        by (auto simp: block_pages_def pages_per_block_def d)
    qed
    finally show ?thesis .
  qed
qed

lemma allocate_pages_ok:
  assumes t: "table_ok fa" and al: "aligned_set (free_blocks fa)"
    and dj: "disjoint_set (free_blocks fa)" and ord: "order \<le> MAX_ORDER"
  shows "allocate_pages fa order = Inr (None, fa)
         \<or> (\<exists>b fa'. allocate_pages fa order = Inr (Some b, fa') \<and> table_ok fa'
               \<and> aligned_set (free_blocks fa') \<and> disjoint_set (free_blocks fa')
               \<and> 2 ^ order dvd b \<and> block_pages b order \<subseteq> pfns (free_blocks fa)
               \<and> pfns (free_blocks fa') = pfns (free_blocks fa) - block_pages b order
               \<and> (merged_set (free_blocks fa) \<longrightarrow> merged_set (free_blocks fa')))"
proof (cases "find_free fa order")
  case None
  then show ?thesis by (simp add: allocate_pages_def)
next
  case (Some f)
  let ?B = "free_blocks fa"
  from find_free_SomeD [OF ord Some]
  have f: "order \<le> f" "f \<le> MAX_ORDER" "fa ! f \<noteq> []"
    and emp: "\<forall>j. order \<le> j \<and> j < f \<longrightarrow> fa ! j = []"
    by simp_all
  define b where "b = hd (fa ! f)"
  have hd: "fa ! f = b # tl (fa ! f)" using f(3) by (simp add: b_def)
  have bf: "(b, f) \<in> ?B" using f(2) hd by (metis free_blocks_iff list.set_intros(1))
  have bal: "2 ^ f dvd b" using aligned_setD [OF al bf] by simp
  have len: "length fa = Suc MAX_ORDER" using t by (simp add: table_ok_def)
  have srt: "sorted_wrt (<) (fa ! f)" using t f(2) by (simp add: table_ok_def)
  from allocate_pages_found [OF len f(1,2,3) emp] bal
  obtain fa' where
    fa': "allocate_pages fa order = Inr (Some b, fa')" "length fa' = length fa"
      "\<forall>j \<le> MAX_ORDER. fa' ! j =
         (if j = f then tl (fa ! f)
          else if order \<le> j \<and> j < f then [b + pages_per_block j]
          else fa ! j)"
    unfolding b_def aligned_dvd by blast
  define N where "N = {(b + 2 ^ j, j) | j. order \<le> j \<and> j < f}"
  have tlset: "set (tl (fa ! f)) = set (fa ! f) - {b}"
    using srt hd by (metis set_remove1_strict remove1.simps(2))
  have B': "free_blocks fa' = (?B - {(b, f)}) \<union> N"
  proof (rule set_eqI, clarify)
    fix c i
    show "(c, i) \<in> free_blocks fa' \<longleftrightarrow> (c, i) \<in> (?B - {(b, f)}) \<union> N"
    proof (cases "i \<le> MAX_ORDER")
      case False
      then show ?thesis using f(2) by (auto simp: N_def)
    next
      case True
      note fi = fa'(3) [rule_format, OF True]
      consider "i = f" | "i \<noteq> f" "order \<le> i \<and> i < f" | "i \<noteq> f" "\<not> (order \<le> i \<and> i < f)"
        by blast
      then show ?thesis
      proof cases
        case 1
        then show ?thesis using fi True tlset by (auto simp: N_def)
      next
        case 2
        then have "fa ! i = []" using emp by simp
        then show ?thesis using fi True 2 by (auto simp: N_def pages_per_block_def)
      next
        case 3
        then show ?thesis using fi True by (auto simp: N_def)
      qed
    qed
  qed
  have t': "table_ok fa'"
    unfolding table_ok_def
  proof (intro conjI allI impI)
    show "length fa' = Suc MAX_ORDER" using fa'(2) len by simp
  next
    fix k assume k: "k \<le> MAX_ORDER"
    have "sorted_wrt (<) (tl (fa ! f))" using srt hd by (metis sorted_wrt.simps(2))
    moreover have "sorted_wrt (<) (fa ! k)" using t k by (simp add: table_ok_def)
    ultimately show "sorted_wrt (<) (fa' ! k)"
      using fa'(3) [rule_format, OF k] by simp
  qed
  have Npages: "block_pages c i \<subseteq> {b + 2 ^ order ..< b + 2 ^ f}" if "(c, i) \<in> N" for c i
  proof -
    from that have i: "c = b + 2 ^ i" "order \<le> i" "i < f" by (auto simp: N_def)
    then have "block_pages c i \<subseteq> (\<Union>j \<in> {order ..< f}. block_pages (b + 2 ^ j) j)"
      by auto
    then show ?thesis using split_halves_pages [OF f(1), of b] by simp
  qed
  have whole: "block_pages b f = block_pages b order \<union> {b + 2 ^ order ..< b + 2 ^ f}"
  proof -
    have "(2::nat) ^ order \<le> 2 ^ f" using f(1) by simp
    then obtain d where d: "(2::nat) ^ f = 2 ^ order + d"
      using le_iff_add by blast
    show ?thesis by (auto simp: block_pages_def pages_per_block_def d)
  qed
  have part: "block_pages b order \<inter> {b + 2 ^ order ..< b + 2 ^ f} = {}"
    by (auto simp: block_pages_def pages_per_block_def)
  have Nin: "block_pages c i \<subseteq> block_pages b f" if "(c, i) \<in> N" for c i
    using Npages [OF that] whole by blast
  have old: "block_pages c i \<inter> block_pages b f = {}" if "(c, i) \<in> ?B - {(b, f)}" for c i
    using disjoint_setD [OF dj _ bf, of c i] that by blast
  have a': "aligned_set (free_blocks fa')"
    unfolding aligned_set_def B'
  proof (intro ballI, clarify)
    fix c i assume "(c, i) \<in> (?B - {(b, f)}) \<union> N"
    then show "i \<le> MAX_ORDER \<and> 2 ^ i dvd c"
    proof
      assume "(c, i) \<in> ?B - {(b, f)}"
      then show ?thesis using aligned_setD [OF al, of c i] by simp
    next
      assume "(c, i) \<in> N"
      then have i: "c = b + 2 ^ i" "order \<le> i" "i < f" by (auto simp: N_def)
      then have "2 ^ i dvd b" using bal by (meson less_imp_le power_le_dvd)
      then show ?thesis using i f(2) by simp
    qed
  qed
  have NN: "block_pages c i \<inter> block_pages c' i' = {}"
    if "(c, i) \<in> N" "(c', i') \<in> N" "i < i'" for c i c' i'
  proof -
    from that have c: "c = b + 2 ^ i" "c' = b + 2 ^ i'" by (auto simp: N_def)
    have "(2::nat) ^ Suc i \<le> 2 ^ i'" using that(3) by (simp add: Suc_leI del: power_Suc)
    then obtain d where d: "(2::nat) ^ i' = 2 ^ Suc i + d"
      using le_iff_add by blast
    show ?thesis
      unfolding c by (auto simp: block_pages_def pages_per_block_def d)
  qed
  have d': "disjoint_set (free_blocks fa')"
    unfolding B'
  proof (rule disjoint_setI)
    fix c i c' i'
    assume m: "(c, i) \<in> (?B - {(b, f)}) \<union> N" "(c', i') \<in> (?B - {(b, f)}) \<union> N"
      "(c, i) \<noteq> (c', i')"
    consider (oo) "(c, i) \<in> ?B - {(b, f)}" "(c', i') \<in> ?B - {(b, f)}"
      | (on) "(c, i) \<in> ?B - {(b, f)}" "(c', i') \<in> N"
      | (no) "(c, i) \<in> N" "(c', i') \<in> ?B - {(b, f)}"
      | (nn) "(c, i) \<in> N" "(c', i') \<in> N"
      using m(1,2) by blast
    then show "block_pages c i \<inter> block_pages c' i' = {}"
    proof cases
      case oo
      then show ?thesis using disjoint_setD [OF dj _ _ m(3)] by blast
    next
      case on
      then show ?thesis using old [of c i] Nin [of c' i'] by blast
    next
      case no
      then show ?thesis using old [of c' i'] Nin [of c i] by blast
    next
      case nn
      then have "i \<noteq> i'" using m(3) by (auto simp: N_def)
      then consider "i < i'" | "i' < i" by linarith
      then show ?thesis using NN [of c i c' i'] NN [of c' i' c i] nn by cases blast+
    qed
  qed
  have bfP: "block_pages b f \<subseteq> pfns ?B" using in_pfnsI [OF bf] by blast
  have pN: "pfns N = {b + 2 ^ order ..< b + 2 ^ f}"
  proof -
    have "pfns N = (\<Union>j \<in> {order ..< f}. block_pages (b + 2 ^ j) j)"
      by (auto simp: pfns_def N_def)
    then show ?thesis using split_halves_pages [OF f(1), of b] by simp
  qed
  have pU: "pfns ((?B - {(b, f)}) \<union> N) = pfns (?B - {(b, f)}) \<union> pfns N"
    by (auto simp: pfns_def)
  have p': "pfns (free_blocks fa') = pfns ?B - block_pages b order"
    unfolding B' pU pN pfns_remove [OF dj bf] using whole part bfP by blast
  have sub: "block_pages b order \<subseteq> pfns ?B" using whole bfP by blast
  have bo: "2 ^ order dvd b" using bal f(1) by (meson power_le_dvd)
  have m': "merged_set (free_blocks fa')" if mg: "merged_set ?B"
    unfolding B'
  proof (rule merged_setI)
    fix c i
    assume c: "(c, i) \<in> (?B - {(b, f)}) \<union> N" "i < MAX_ORDER" "2 ^ i dvd c"
      "(buddy_pfn c i, i) \<in> (?B - {(b, f)}) \<union> N"
    have Nempty: "fa ! j = []" if "(x, j) \<in> N" for x j
      using that emp by (auto simp: N_def)
    show False
    proof (cases "(c, i) \<in> N")
      case True
      then have i: "c = b + 2 ^ i" "order \<le> i" "i < f" by (auto simp: N_def)
      have "2 ^ Suc i dvd b" using bal i(3) by (meson Suc_leI power_le_dvd)
      then have "\<not> 2 ^ Suc i dvd c"
        unfolding i(1)
        by (metis dvd_add_right_iff dvd_imp_le lessI not_less power_strict_increasing_iff
            one_less_numeral_iff semiring_norm(76) zero_less_numeral zero_less_power)
      then have bud: "buddy_pfn c i = b" by (simp add: buddy_pfn_def i(1))
      have "(b, i) \<notin> N" by (auto simp: N_def)
      moreover have "(b, i) \<notin> ?B" using Nempty [OF True] by simp
      ultimately show False using c(4) bud by simp
    next
      case False
      then have cB: "(c, i) \<in> ?B" using c(1) by blast
      then have "fa ! i \<noteq> []" by auto
      then have "(buddy_pfn c i, i) \<notin> N" using Nempty by blast
      then have "(buddy_pfn c i, i) \<in> ?B" using c(4) by blast
      then show False using merged_setD [OF mg cB c(2,3)] by simp
    qed
  qed
  show ?thesis
    using fa'(1) t' a' d' bo sub p' m' by blast
qed

section \<open>Uniqueness of the table\<close>

subsection \<open>The table is determined by the free frames\<close>

lemma cover_block:
  assumes al: "aligned_set B" and dj: "disjoint_set B" and mg: "merged_set B"
  shows "k \<le> MAX_ORDER \<Longrightarrow> 2 ^ k dvd c \<Longrightarrow> block_pages c k \<subseteq> pfns B
         \<Longrightarrow> (\<And>b j. (b, j) \<in> B \<Longrightarrow> k < j \<Longrightarrow> block_pages b j \<inter> block_pages c k = {})
         \<Longrightarrow> (c, k) \<in> B"
proof (induction k arbitrary: c)
  case 0
  have "c \<in> pfns B" using "0.prems"(3) block_pages_self [of c 0] by blast
  then obtain b j where bj: "(b, j) \<in> B" "c \<in> block_pages b j" by (rule in_pfnsE)
  have "j = 0"
  proof (rule ccontr)
    assume "j \<noteq> 0"
    then have "block_pages b j \<inter> block_pages c 0 = {}" using "0.prems"(4) [OF bj(1)] by simp
    with bj(2) block_pages_self [of c 0] show False by blast
  qed
  with bj(2) have "b = c" by (simp add: block_pages_def pages_per_block_def)
  with bj(1) \<open>j = 0\<close> show ?case by simp
next
  case (Suc k)
  show ?case
  proof (rule ccontr)
    assume nin: "(c, Suc k) \<notin> B"
    have ck: "2 ^ k dvd c" using Suc.prems(2) by (metis dvd_mult_right mult.commute power_Suc)
    have kM: "k \<le> MAX_ORDER" "k < MAX_ORDER" using Suc.prems(1) by simp_all
    have half: "(c', k) \<in> B"
      if c': "2 ^ k dvd c'" "block_pages c' k \<subseteq> block_pages c (Suc k)" for c'
    proof (rule Suc.IH [OF kM(1) c'(1)])
      show "block_pages c' k \<subseteq> pfns B" using c'(2) Suc.prems(3) by blast
    next
      fix b j assume bj: "(b, j) \<in> B" "k < j"
      show "block_pages b j \<inter> block_pages c' k = {}"
      proof (cases "j = Suc k")
        case False
        then have "Suc k < j" using bj(2) by simp
        from Suc.prems(4) [OF bj(1) this] c'(2) show ?thesis by blast
      next
        case True
        show ?thesis
        proof (rule ccontr)
          assume "block_pages b j \<inter> block_pages c' k \<noteq> {}"
          then obtain x where x: "x \<in> block_pages b (Suc k)" "x \<in> block_pages c (Suc k)"
            using c'(2) True by blast
          have "2 ^ Suc k dvd b" using aligned_setD [OF al bj(1)] True by simp
          from block_same_order [OF this Suc.prems(2) x] bj(1) True nin show False by simp
        qed
      qed
    qed
    have 1: "(c, k) \<in> B"
      by (rule half [OF ck]) (auto simp: split_pages)
    have "2 ^ k dvd c + 2 ^ k" using ck by simp
    then have 2: "(c + 2 ^ k, k) \<in> B"
      by (rule half) (auto simp: split_pages)
    have "buddy_pfn c k = c + 2 ^ k" using Suc.prems(2) by (simp add: buddy_pfn_def)
    with merged_setD [OF mg 1 kM(2) ck] 2 show False by simp
  qed
qed

lemma blocks_determined:
  assumes al: "aligned_set B" and dj: "disjoint_set B" and mg: "merged_set B"
  shows "(b, k) \<in> B \<longleftrightarrow>
           k \<le> MAX_ORDER \<and> 2 ^ k dvd b \<and> block_pages b k \<subseteq> pfns B
           \<and> (k < MAX_ORDER \<longrightarrow> \<not> block_pages (parent_pfn b k) (Suc k) \<subseteq> pfns B)"
proof
  assume bk: "(b, k) \<in> B"
  have a: "k \<le> MAX_ORDER" "2 ^ k dvd b" using aligned_setD [OF al bk] by simp_all
  have s: "block_pages b k \<subseteq> pfns B" using in_pfnsI [OF bk] by blast
  have "\<not> block_pages (parent_pfn b k) (Suc k) \<subseteq> pfns B" if k: "k < MAX_ORDER"
  proof
    assume par: "block_pages (parent_pfn b k) (Suc k) \<subseteq> pfns B"
    let ?q = "buddy_pfn b k"
    have pp: "block_pages (parent_pfn b k) (Suc k) = block_pages b k \<union> block_pages ?q k"
      using parent_pages [OF a(2)] .
    have "(?q, k) \<in> B"
    proof (rule cover_block [OF al dj mg a(1) buddy_aligned [OF a(2)]])
      show "block_pages ?q k \<subseteq> pfns B" using par pp by blast
    next
      fix c j assume cj: "(c, j) \<in> B" "k < j"
      show "block_pages c j \<inter> block_pages ?q k = {}"
      proof (rule ccontr)
        assume "block_pages c j \<inter> block_pages ?q k \<noteq> {}"
        then obtain x where x: "x \<in> block_pages c j" "x \<in> block_pages (parent_pfn b k) (Suc k)"
          using pp by blast
        have cj2: "2 ^ j dvd c" using aligned_setD [OF al cj(1)] by simp
        have "Suc k \<le> j" using cj(2) by simp
        from block_nest [OF parent_aligned [OF a(2)] cj2 this x(2,1)]
        have "b \<in> block_pages c j" using pp block_pages_self [of b k] by blast
        moreover have "(c, j) \<noteq> (b, k)" using cj(2) by simp
        ultimately show False
          using disjoint_setD [OF dj cj(1) bk] block_pages_self [of b k] by blast
      qed
    qed
    with merged_setD [OF mg bk k a(2)] show False by simp
  qed
  with a s show "k \<le> MAX_ORDER \<and> 2 ^ k dvd b \<and> block_pages b k \<subseteq> pfns B
           \<and> (k < MAX_ORDER \<longrightarrow> \<not> block_pages (parent_pfn b k) (Suc k) \<subseteq> pfns B)"
    by simp
next
  assume r: "k \<le> MAX_ORDER \<and> 2 ^ k dvd b \<and> block_pages b k \<subseteq> pfns B
           \<and> (k < MAX_ORDER \<longrightarrow> \<not> block_pages (parent_pfn b k) (Suc k) \<subseteq> pfns B)"
  then have a: "k \<le> MAX_ORDER" "2 ^ k dvd b" "block_pages b k \<subseteq> pfns B" by simp_all
  show "(b, k) \<in> B"
  proof (rule cover_block [OF al dj mg a])
    fix c j assume cj: "(c, j) \<in> B" "k < j"
    show "block_pages c j \<inter> block_pages b k = {}"
    proof (rule ccontr)
      assume "block_pages c j \<inter> block_pages b k \<noteq> {}"
      then obtain x where x: "x \<in> block_pages c j" "x \<in> block_pages b k" by blast
      have cj2: "j \<le> MAX_ORDER" "2 ^ j dvd c" using aligned_setD [OF al cj(1)] by simp_all
      have k: "k < MAX_ORDER" using cj(2) cj2(1) by simp
      have "x \<in> block_pages (parent_pfn b k) (Suc k)"
        using parent_pages [OF a(2)] x(2) by blast
      moreover have "Suc k \<le> j" using cj(2) by simp
      ultimately have "block_pages (parent_pfn b k) (Suc k) \<subseteq> block_pages c j"
        using block_nest [OF parent_aligned [OF a(2)] cj2(2)] x(1) by blast
      also have "\<dots> \<subseteq> pfns B" using in_pfnsI [OF cj(1)] by blast
      finally show False using r k by simp
    qed
  qed
qed

lemma blocks_unique:
  assumes "aligned_set B" "disjoint_set B" "merged_set B"
    and "aligned_set B'" "disjoint_set B'" "merged_set B'" and "pfns B = pfns B'"
  shows "B = B'"
proof (rule set_eqI, clarify)
  fix b k
  show "(b, k) \<in> B \<longleftrightarrow> (b, k) \<in> B'"
    unfolding blocks_determined [OF assms(1,2,3)] blocks_determined [OF assms(4,5,6)] assms(7) ..
qed

lemma table_unique:
  assumes "table_ok fa" "aligned_set (free_blocks fa)" "disjoint_set (free_blocks fa)"
    "merged_set (free_blocks fa)"
    and "table_ok fa'" "aligned_set (free_blocks fa')" "disjoint_set (free_blocks fa')"
    "merged_set (free_blocks fa')"
    and "pfns (free_blocks fa) = pfns (free_blocks fa')"
  shows "fa = fa'"
  by (rule table_eqI [OF assms(1,5) blocks_unique [OF assms(2,3,4,6,7,8,9)]])

section \<open>Counting the free frames\<close>

lemma card_block_pages [simp]: "card (block_pages b k) = 2 ^ k"
  by (simp add: block_pages_def pages_per_block_def)

lemma finite_block_pages [simp]: "finite (block_pages b k)"
  by (simp add: block_pages_def)

lemma free_pfns_UN:
  "free_pfns fa = (\<Union>k \<in> {0 ..< Suc MAX_ORDER}. \<Union>b \<in> set (fa ! k). block_pages b k)"
proof (rule set_eqI)
  fix x
  have "x \<in> free_pfns fa \<longleftrightarrow> (\<exists>b k. (b, k) \<in> free_blocks fa \<and> x \<in> block_pages b k)"
    unfolding free_pfns_def by blast
  also have "\<dots> \<longleftrightarrow> (\<exists>k \<in> {0 ..< Suc MAX_ORDER}. \<exists>b \<in> set (fa ! k). x \<in> block_pages b k)"
    unfolding Bex_def atLeastLessThan_iff free_blocks_iff less_Suc_eq_le by blast
  also have "\<dots> \<longleftrightarrow> x \<in> (\<Union>k \<in> {0 ..< Suc MAX_ORDER}. \<Union>b \<in> set (fa ! k). block_pages b k)"
    by blast
  finally show "x \<in> free_pfns fa
    \<longleftrightarrow> x \<in> (\<Union>k \<in> {0 ..< Suc MAX_ORDER}. \<Union>b \<in> set (fa ! k). block_pages b k)" .
qed

lemma finite_free_pfns: "finite (free_pfns fa)"
  unfolding free_pfns_UN by simp

lemma total_free_pages_card:
  assumes "structural_inv fa"
  shows "total_free_pages fa = card (free_pfns fa)"
proof -
  from assms have t: "table_ok fa" and dj: "disjoint_set (free_blocks fa)"
    by (simp_all add: structural_inv_iff)
  have len: "length fa = Suc MAX_ORDER" using t by (simp add: table_ok_def)
  define P where "P k = (\<Union>b \<in> set (fa ! k). block_pages b k)" for k
  have fp: "free_pfns fa = (\<Union>k \<in> {0 ..< Suc MAX_ORDER}. P k)"
    unfolding P_def by (rule free_pfns_UN)
  have cP: "card (P k) = length (fa ! k) * 2 ^ k" if k: "k \<le> MAX_ORDER" for k
  proof -
    have d: "distinct (fa ! k)" using t k by (simp add: table_ok_def strict_sorted_iff)
    have "card (P k) = (\<Sum>b \<in> set (fa ! k). card (block_pages b k))"
      unfolding P_def
    proof (rule card_UN_disjoint)
      show "\<forall>b \<in> set (fa ! k). \<forall>c \<in> set (fa ! k). b \<noteq> c \<longrightarrow> block_pages b k \<inter> block_pages c k = {}"
      proof (intro ballI impI)
        fix b c assume "b \<in> set (fa ! k)" "c \<in> set (fa ! k)" "b \<noteq> c"
        then show "block_pages b k \<inter> block_pages c k = {}"
          using disjoint_setD [OF dj, of b k c k] k by simp
      qed
    qed simp_all
    also have "\<dots> = card (set (fa ! k)) * 2 ^ k" by simp
    also have "card (set (fa ! k)) = length (fa ! k)" using d by (rule distinct_card)
    finally show ?thesis .
  qed
  have "card (free_pfns fa) = (\<Sum>k \<in> {0 ..< Suc MAX_ORDER}. card (P k))"
    unfolding fp
  proof (rule card_UN_disjoint)
    show "\<forall>i \<in> {0 ..< Suc MAX_ORDER}. finite (P i)" by (simp add: P_def)
    show "\<forall>i \<in> {0 ..< Suc MAX_ORDER}. \<forall>j \<in> {0 ..< Suc MAX_ORDER}. i \<noteq> j \<longrightarrow> P i \<inter> P j = {}"
    proof (intro ballI impI)
      fix i j assume ij: "i \<in> {0 ..< Suc MAX_ORDER}" "j \<in> {0 ..< Suc MAX_ORDER}" "i \<noteq> j"
      show "P i \<inter> P j = {}"
      proof (rule ccontr)
        assume "P i \<inter> P j \<noteq> {}"
        then obtain x b c where x: "b \<in> set (fa ! i)" "x \<in> block_pages b i"
          "c \<in> set (fa ! j)" "x \<in> block_pages c j"
          by (auto simp: P_def)
        have "(b, i) \<in> free_blocks fa" "(c, j) \<in> free_blocks fa" "(b, i) \<noteq> (c, j)"
          using x(1,3) ij by simp_all
        from disjoint_setD [OF dj this] x(2,4) show False by blast
      qed
    qed
  qed simp
  also have "\<dots> = (\<Sum>k \<in> {0 ..< Suc MAX_ORDER}. length (fa ! k) * 2 ^ k)"
    by (rule sum.cong) (simp_all add: cP)
  also have "\<dots> = total_free_pages fa"
    by (simp add: total_free_pages_def len pages_per_block_def sum_list_distinct_conv_sum_set
        del: upt_Suc)
  finally show ?thesis by simp
qed

section \<open>Reachable tables\<close>

lemma free_blocks_empty [simp]: "free_blocks empty_areas = {}"
  by (auto simp: free_blocks_def)

lemma table_ok_empty: "table_ok empty_areas"
  by (simp add: table_ok_def)

lemma reachable_inv:
  "reachable fa \<Longrightarrow>
   table_ok fa \<and> aligned_set (free_blocks fa) \<and> disjoint_set (free_blocks fa)
   \<and> merged_set (free_blocks fa)"
proof (induction rule: reachable.induct)
  case (init fa0 page_descriptors nr_page_descriptors)
  then show ?case
    by (simp add: init_empty table_ok_empty aligned_set_def disjoint_set_def merged_set_def)
next
  case (allocate fa order r fa')
  then show ?case
    using allocate_pages_ok [of fa order] by auto
next
  case (free fa order pgd fa')
  then show ?case
    using free_pages_ok [of fa order pgd] by (auto simp: aligned_dvd free_pfns_eq)
next
  case (insert_range fa start count fa')
  then show ?case
    using insert_page_range_ok [of fa start count] by (auto simp: free_pfns_eq)
next
  case (remove_range fa start count fa')
  then show ?case
    using remove_page_range_ok [of fa start count] by (auto simp: free_pfns_eq)
qed

lemma repeated_merge_fixed:
  assumes "eager_merged fa" "(b, k) \<in> free_blocks fa"
  shows "repeated_merge fa b k = Inr fa"
proof -
  have k: "k \<le> MAX_ORDER" using assms(2) by simp
  have "buddy_of b k \<notin> Some ` set (fa ! k)"
  proof
    assume "buddy_of b k \<in> Some ` set (fa ! k)"
    then obtain q where q: "buddy_of b k = Some q" "q \<in> set (fa ! k)" by auto
    then have "(q, k) \<in> free_blocks fa" using k by simp
    with assms q(1) show False unfolding eager_merged_def by blast
  qed
  then show ?thesis
    using k by (simp add: repeated_merge_def merge_loop_miss)
qed

lemma reachable_empty: "reachable empty_areas"
  using reachable.init [of empty_areas True 1] by (simp add: init_empty)

lemma reachable_scenario_A: "reachable scenario_A"
  using reachable.insert_range [OF reachable_empty _ eval_insert_range_A]
  by (simp add: free_pfns_def)

lemma reachable_scenario_B: "reachable scenario_B"
  using reachable.allocate [OF reachable_scenario_A _ eval_allocate_B]
  by (simp add: MAX_ORDER_def)

lemma free_blocks_scenario_B: "free_blocks scenario_B = {(2, 1), (4, 2)}"
  by (auto simp: free_blocks_def scenario_B_def nth_list_update MAX_ORDER_def split: if_splits)

lemma free_pfns_scenario_B: "free_pfns scenario_B = {2 ..< 8}"
  by (auto simp: free_pfns_def free_blocks_scenario_B block_pages_def pages_per_block_def)

lemma free_blocks_scenario_A: "free_blocks scenario_A = {(0, 3)}"
  by (auto simp: free_blocks_def scenario_A_def nth_list_update MAX_ORDER_def split: if_splits)

lemma free_pfns_scenario_A: "free_pfns scenario_A = {0 ..< 8}"
  by (auto simp: free_pfns_def free_blocks_scenario_A block_pages_def pages_per_block_def)

section \<open>The claims on invariants and ranges\<close>

text \<open>
  C9. Structural invariant. Every table that can arise from \<open>init\<close> by
  \<open>allocate_pages\<close>, \<open>free_pages\<close>, \<open>insert_page_range\<close> and
  \<open>remove_page_range\<close>, each called with its precondition met, has its
  \<open>MAX_ORDER + 1\<close> lists, every free block of order \<open>k\<close> at a frame divisible by
  \<open>2 ^ k\<close>, any two different free blocks (of one order or of two) without a common
  frame, and every list strictly ascending.
\<close>

theorem reachable_structural_inv:
  "reachable fa \<Longrightarrow> structural_inv fa"
  using reachable_inv [of fa] by (simp add: structural_inv_iff)

theorem reachable_structural_inv_witness:
  "reachable scenario_B \<and> structural_inv scenario_B"
  using reachable_structural_inv [OF reachable_scenario_B] reachable_scenario_B by simp

text \<open>
  C8. Eager-merge invariant. From a table that can arise, \<open>free_pages\<close> of an aligned
  block none of whose frames is free, and \<open>insert_page_range\<close> of a range none of whose
  frames is free, return with a table in which no free block has its buddy free in the
  same order; and in that table \<open>repeated_merge\<close>, run again on any free block, leaves
  the table as it is.
\<close>

theorem eager_merge_invariant:
  assumes "reachable fa"
  shows "(order \<le> MAX_ORDER \<and> is_correct_alignment_for_order pgd order
            \<and> block_pages pgd order \<inter> free_pfns fa = {}
          \<longrightarrow> (\<exists>fa'. free_pages fa pgd order = Inr fa' \<and> eager_merged fa'
                 \<and> (\<forall>(b, k) \<in> free_blocks fa'. repeated_merge fa' b k = Inr fa')))
       \<and> ({start ..< start + count} \<inter> free_pfns fa = {}
          \<longrightarrow> (\<exists>fa'. insert_page_range fa start count = Inr fa' \<and> eager_merged fa'
                 \<and> (\<forall>(b, k) \<in> free_blocks fa'. repeated_merge fa' b k = Inr fa')))"
proof (intro conjI impI)
  note inv = reachable_inv [OF assms]
  assume "order \<le> MAX_ORDER \<and> is_correct_alignment_for_order pgd order
            \<and> block_pages pgd order \<inter> free_pfns fa = {}"
  then have pre: "order \<le> MAX_ORDER" "2 ^ order dvd pgd"
    "block_pages pgd order \<inter> pfns (free_blocks fa) = {}"
    by (simp_all add: aligned_dvd free_pfns_eq)
  from free_pages_ok [OF _ _ _ pre] inv obtain fa' where
    fa': "free_pages fa pgd order = Inr fa'" "merged_set (free_blocks fa')"
    by blast
  then have em: "eager_merged fa'" by (simp add: eager_merged_iff)
  then have "\<forall>(b, k) \<in> free_blocks fa'. repeated_merge fa' b k = Inr fa'"
    using repeated_merge_fixed by blast
  with fa'(1) em
  show "\<exists>fa'. free_pages fa pgd order = Inr fa' \<and> eager_merged fa'
                 \<and> (\<forall>(b, k) \<in> free_blocks fa'. repeated_merge fa' b k = Inr fa')"
    by blast
next
  note inv = reachable_inv [OF assms]
  assume "{start ..< start + count} \<inter> free_pfns fa = {}"
  then have pre: "{start ..< start + count} \<inter> pfns (free_blocks fa) = {}"
    by (simp add: free_pfns_eq)
  from insert_page_range_ok [OF _ _ _ pre] inv obtain fa' where
    fa': "insert_page_range fa start count = Inr fa'" "merged_set (free_blocks fa')"
    by blast
  then have em: "eager_merged fa'" by (simp add: eager_merged_iff)
  then have "\<forall>(b, k) \<in> free_blocks fa'. repeated_merge fa' b k = Inr fa'"
    using repeated_merge_fixed by blast
  with fa'(1) em
  show "\<exists>fa'. insert_page_range fa start count = Inr fa' \<and> eager_merged fa'
                 \<and> (\<forall>(b, k) \<in> free_blocks fa'. repeated_merge fa' b k = Inr fa')"
    by blast
qed

theorem eager_merge_invariant_witness:
  "reachable scenario_B \<and> (1::nat) \<le> MAX_ORDER \<and> is_correct_alignment_for_order 0 1
   \<and> block_pages 0 1 \<inter> free_pfns scenario_B = {}
   \<and> {0 ..< 0 + 2} \<inter> free_pfns scenario_B = {}
   \<and> free_pages scenario_B 0 1 = Inr scenario_A
   \<and> insert_page_range scenario_B 0 2 = Inr scenario_A
   \<and> eager_merged scenario_A
   \<and> repeated_merge scenario_A 0 3 = Inr scenario_A"
proof -
  have h1: "(1::nat) \<le> MAX_ORDER" by (simp add: MAX_ORDER_def)
  have h2: "is_correct_alignment_for_order 0 1"
    by (simp add: is_correct_alignment_for_order_def)
  have h3: "block_pages 0 1 \<inter> free_pfns scenario_B = {}"
    by (auto simp: free_pfns_scenario_B block_pages_def pages_per_block_def)
  have h4: "{0 ..< 0 + 2} \<inter> free_pfns scenario_B = {}"
    by (auto simp: free_pfns_scenario_B)
  note t = eager_merge_invariant [OF reachable_scenario_B, of 1 0 0 2]
  from t h1 h2 h3 obtain fa' where fa': "free_pages scenario_B 0 1 = Inr fa'" "eager_merged fa'"
      "\<forall>(b, k) \<in> free_blocks fa'. repeated_merge fa' b k = Inr fa'"
    by blast
  from fa'(1) have "fa' = scenario_A" unfolding eval_free_A by simp
  with fa'(2,3) have em: "eager_merged scenario_A"
    and fx: "\<forall>(b, k) \<in> free_blocks scenario_A. repeated_merge scenario_A b k = Inr scenario_A"
    by simp_all
  have "(0, 3) \<in> free_blocks scenario_A"
    by (simp add: scenario_A_eq MAX_ORDER_def)
  with fx have "repeated_merge scenario_A 0 3 = Inr scenario_A" by blast
  with em h1 h2 h3 h4 reachable_scenario_B eval_free_A eval_insert_range_B
  show ?thesis by simp
qed

text \<open>
  C4. Conservation. From a table that can arise, and a range none of whose frames is
  free, \<open>insert_page_range\<close> makes exactly the frames of the range free in addition and
  the number of free frames grows by the length of the range; \<open>remove_page_range\<close> of
  the same range right after it returns the table of before the two calls, list by list,
  so the number of free frames is the one of before as well.
\<close>

theorem insert_remove_range_conservation:
  assumes "reachable fa" and "{s ..< s + n} \<inter> free_pfns fa = {}"
  shows "\<exists>fa1 fa2. insert_page_range fa s n = Inr fa1 \<and> remove_page_range fa1 s n = Inr fa2
           \<and> free_pfns fa1 = free_pfns fa \<union> {s ..< s + n}
           \<and> total_free_pages fa1 = total_free_pages fa + n
           \<and> fa2 = fa \<and> total_free_pages fa2 = total_free_pages fa"
proof -
  note inv = reachable_inv [OF assms(1)]
  have pre: "{s ..< s + n} \<inter> pfns (free_blocks fa) = {}"
    using assms(2) by (simp add: free_pfns_eq)
  from insert_page_range_ok [OF _ _ _ pre] inv obtain fa1 where
    fa1: "insert_page_range fa s n = Inr fa1" "table_ok fa1"
      "aligned_set (free_blocks fa1)" "disjoint_set (free_blocks fa1)"
      "pfns (free_blocks fa1) = pfns (free_blocks fa) \<union> {s ..< s + n}"
      "merged_set (free_blocks fa1)"
    by blast
  have cov: "{s ..< s + n} \<subseteq> pfns (free_blocks fa1)"
    using fa1(5) by blast
  from remove_page_range_ok [OF fa1(2,3,4) cov] fa1(6) obtain fa2 where
    fa2: "remove_page_range fa1 s n = Inr fa2" "table_ok fa2"
      "aligned_set (free_blocks fa2)" "disjoint_set (free_blocks fa2)"
      "pfns (free_blocks fa2) = pfns (free_blocks fa1) - {s ..< s + n}"
      "merged_set (free_blocks fa2)"
    by blast
  have "pfns (free_blocks fa2) = pfns (free_blocks fa)"
    using fa2(5) fa1(5) pre by blast
  then have "fa2 = fa"
    using table_unique [OF fa2(2,3,4,6)] inv by blast
  have "total_free_pages fa1 = card (free_pfns fa1)"
    using fa1(2,3,4) by (simp add: total_free_pages_card structural_inv_iff)
  also have "\<dots> = card (free_pfns fa \<union> {s ..< s + n})"
    using fa1(5) by (simp add: free_pfns_eq)
  also have "\<dots> = card (free_pfns fa) + card {s ..< s + n}"
    using assms(2) by (intro card_Un_disjoint) (auto simp: finite_free_pfns)
  also have "card (free_pfns fa) = total_free_pages fa"
    using inv by (simp add: total_free_pages_card structural_inv_iff)
  finally have "total_free_pages fa1 = total_free_pages fa + n" by simp
  with fa1(1,5) fa2(1) \<open>fa2 = fa\<close> show ?thesis
    by (simp add: free_pfns_eq)
qed

theorem insert_remove_range_conservation_witness:
  "reachable scenario_B \<and> {0 ..< 0 + 2} \<inter> free_pfns scenario_B = {}
   \<and> insert_page_range scenario_B 0 2 = Inr scenario_A
   \<and> remove_page_range scenario_A 0 2 = Inr scenario_B
   \<and> free_pfns scenario_A = free_pfns scenario_B \<union> {0 ..< 0 + 2}"
proof -
  have h: "{0 ..< 0 + 2} \<inter> free_pfns scenario_B = {}"
    by (auto simp: free_pfns_scenario_B)
  from insert_remove_range_conservation [OF reachable_scenario_B h]
  obtain fa1 where "insert_page_range scenario_B 0 2 = Inr fa1"
    "free_pfns fa1 = free_pfns scenario_B \<union> {0 ..< 0 + 2}"
    by blast
  then have "free_pfns scenario_A = free_pfns scenario_B \<union> {0 ..< 0 + 2}"
    unfolding eval_insert_range_B by simp
  with h reachable_scenario_B eval_insert_range_B eval_remove_range_A show ?thesis by simp
qed

text \<open>
  C5 (Scenario A). \<open>init\<close> leaves every list empty, and \<open>insert_page_range\<close> of
  the 8 frames from frame 0 then gives the table whose only free block is the order-3
  block at frame 0. The rule of \<open>insert_page_range\<close>: with nothing left to insert it
  returns; otherwise it frees the block of the largest order \<open>k \<le> MAX_ORDER\<close> with
  \<open>2 ^ k\<close> frames at most the remaining count and the start aligned to \<open>k\<close>, and goes
  on behind that block with the count reduced by \<open>2 ^ k\<close>.
\<close>

theorem insert_range_scenario_A:
  "(length fa0 = Suc MAX_ORDER \<longrightarrow>
      fst (init fa0 page_descriptors nr_page_descriptors) = empty_areas
      \<and> insert_page_range (fst (init fa0 page_descriptors nr_page_descriptors)) 0 8
          = Inr scenario_A)
   \<and> free_blocks scenario_A = {(0, 3)}
   \<and> insert_page_range fa start 0 = Inr fa
   \<and> (0 < count \<longrightarrow>
        (\<exists>k. pick_size start count MAX_ORDER = Some k \<and> k \<le> MAX_ORDER
           \<and> pages_per_block k \<le> count \<and> is_correct_alignment_for_order start k
           \<and> (\<forall>j \<le> MAX_ORDER. pages_per_block j \<le> count
                  \<and> is_correct_alignment_for_order start j \<longrightarrow> j \<le> k)
           \<and> insert_page_range fa start count =
               (case free_pages fa start k of
                  Inl e \<Rightarrow> Inl e
                | Inr fa' \<Rightarrow> insert_page_range fa' (start + pages_per_block k)
                              (count - pages_per_block k))))"
proof (intro conjI impI)
  assume l: "length fa0 = Suc MAX_ORDER"
  show "fst (init fa0 page_descriptors nr_page_descriptors) = empty_areas"
    using init_empty [OF l] .
  show "insert_page_range (fst (init fa0 page_descriptors nr_page_descriptors)) 0 8
          = Inr scenario_A"
    unfolding init_empty [OF l] by (rule eval_insert_range_A)
next
  show "free_blocks scenario_A = {(0, 3)}" by (rule free_blocks_scenario_A)
next
  show "insert_page_range fa start 0 = Inr fa" by simp
next
  assume pos: "0 < count"
  from pick_size_greedy [OF pos, of start MAX_ORDER] obtain k where
    k: "pick_size start count MAX_ORDER = Some k" "k \<le> MAX_ORDER" "2 ^ k \<le> count"
      "2 ^ k dvd start" "\<forall>j \<le> MAX_ORDER. 2 ^ j \<le> count \<and> 2 ^ j dvd start \<longrightarrow> j \<le> k"
    by blast
  show "\<exists>k. pick_size start count MAX_ORDER = Some k \<and> k \<le> MAX_ORDER
           \<and> pages_per_block k \<le> count \<and> is_correct_alignment_for_order start k
           \<and> (\<forall>j \<le> MAX_ORDER. pages_per_block j \<le> count
                  \<and> is_correct_alignment_for_order start j \<longrightarrow> j \<le> k)
           \<and> insert_page_range fa start count =
               (case free_pages fa start k of
                  Inl e \<Rightarrow> Inl e
                | Inr fa' \<Rightarrow> insert_page_range fa' (start + pages_per_block k)
                              (count - pages_per_block k))"
    using k insert_page_range_step [OF pos k(1), of fa]
    by (intro exI [of _ k]) (simp add: pages_per_block_def aligned_dvd)
qed

theorem insert_range_scenario_A_witness:
  "length scenario_D = Suc MAX_ORDER
   \<and> insert_page_range (fst (init scenario_D True 8)) 0 8 = Inr scenario_A
   \<and> pick_size 0 8 MAX_ORDER = Some 3
   \<and> pick_size 5 3 MAX_ORDER = Some 0"
proof -
  have l: "length scenario_D = Suc MAX_ORDER" by (simp add: scenario_D_def)
  note t = insert_range_scenario_A [of scenario_D True 8 empty_areas 0 8]
  from t l have "insert_page_range (fst (init scenario_D True 8)) 0 8 = Inr scenario_A"
    by blast
  moreover have "pick_size 0 8 MAX_ORDER = Some 3" "pick_size 5 3 MAX_ORDER = Some 0"
    by (simp_all add: eval_defs)
  ultimately show ?thesis using l by simp
qed

text \<open>
  Removal of a covered range. On a table with the structural invariant,
  \<open>remove_page_range\<close> of a range all of whose frames are free returns, and has taken
  exactly the frames of the range out of the free pool; the invariant holds again.
\<close>

lemma remove_page_range_covered:
  assumes "structural_inv fa" and "{start ..< start + count} \<subseteq> free_pfns fa"
  shows "\<exists>fa'. remove_page_range fa start count = Inr fa' \<and> structural_inv fa'
           \<and> free_pfns fa' = free_pfns fa - {start ..< start + count}"
proof -
  from assms(1) have inv: "table_ok fa" "aligned_set (free_blocks fa)"
    "disjoint_set (free_blocks fa)"
    by (simp_all add: structural_inv_iff)
  have cov: "{start ..< start + count} \<subseteq> pfns (free_blocks fa)"
    using assms(2) by (simp add: free_pfns_eq)
  from remove_page_range_ok [OF inv cov] show ?thesis
    by (auto simp: structural_inv_iff free_pfns_eq)
qed

lemma remove_page_range_covered_scenario_D:
  "structural_inv scenario_A \<and> {3 ..< 3 + 2} \<subseteq> free_pfns scenario_A
   \<and> remove_page_range scenario_A 3 2 = Inr scenario_D
   \<and> structural_inv scenario_D
   \<and> free_pfns scenario_D = free_pfns scenario_A - {3 ..< 3 + 2}"
proof -
  have s: "structural_inv scenario_A"
    using reachable_inv [OF reachable_scenario_A] by (simp add: structural_inv_iff)
  have c: "{3 ..< 3 + 2} \<subseteq> free_pfns scenario_A"
    by (auto simp: free_pfns_scenario_A)
  from remove_page_range_covered [OF s c] obtain fa' where
    fa': "remove_page_range scenario_A 3 2 = Inr fa'" "structural_inv fa'"
      "free_pfns fa' = free_pfns scenario_A - {3 ..< 3 + 2}"
    by blast
  from fa'(1) have "fa' = scenario_D" unfolding eval_remove_range_D by simp
  with fa' s c show ?thesis by simp
qed

text \<open>
  C3, on the code. The claim asks that \<open>remove_page_range\<close> of a range that is not
  fully covered by free blocks fails with an abort and neither runs on nor reads the
  table out of bounds. The code does not: its order loop
  \<^verbatim>\<open>for (uint32_t order = MAX_ORDER; order >= 0; order--)\<close> cannot end by its
  condition. With an empty pool no free block covers frame 0: the loop passes order 0,
  the 32-bit counter wraps to \<open>2^32 - 1\<close>, and the next pass indexes the table outside
  the array. The same happens for a range that is covered only in part: frames 6 to 9
  on the table whose only free block is the order-3 block at frames [0,7]. In neither
  run does an assertion fail.
\<close>

theorem remove_uncovered_range_out_of_bounds:
  "free_pfns empty_areas = {}
   \<and> remove_page_range empty_areas 0 1 = Inl OutOfBounds
   \<and> remove_page_range empty_areas 0 1 \<noteq> Inl AssertionFailure
   \<and> find_block empty_areas 0 0 = find_block empty_areas 0 (- 1)
   \<and> unat (- 1 :: 32 word) = 4294967295
   \<and> free_pfns scenario_A = {0 ..< 8}
   \<and> remove_page_range scenario_A 6 4 = Inl OutOfBounds"
proof -
  have "find_block empty_areas 0 0 = find_block empty_areas 0 (- 1)"
    by (subst find_block.simps) (simp add: MAX_ORDER_def)
  moreover have "unat (- 1 :: 32 word) = 4294967295"
    by (simp add: unsigned_minus_1_eq_mask mask_eq_exp_minus_1)
  ultimately show ?thesis
    unfolding eval_remove_range_empty eval_remove_range_partial free_pfns_scenario_A
    by (simp add: free_pfns_def)
qed


end
